theory Spec2Isabelle
  imports Complex_Main
begin

section \<open>Data model of \<open>ACO_runner.py\<close>\<close>

text \<open>
  Nodes are grid cells \<open>(row, col)\<close>. The graph returned by \<open>create_graph\<close> (module
  \<open>ga_core\<close>) is used by the runner only through \<open>for u in G\<close> and \<open>list(G[u])\<close>, so it is
  an adjacency table: a list of (node, neighbour list) pairs, looked up with \<open>map_of\<close>;
  \<open>G[u]\<close> on a node that is not a key raises \<open>KeyError\<close>.

  Python floats are modelled by the reals: rounding, overflow and NaN are outside the model.
\<close>

type_synonym node = "int \<times> int"
type_synonym edge = "node \<times> node"
type_synonym graph = "(node \<times> node list) list"
type_synonym route = "(nat \<times> node) list"
type_synonym occupancy = "(nat \<times> node) set"
type_synonym trails = "edge \<rightharpoonup> real"

datatype error = KeyError | IndexError | ZeroDivisionError | TypeError

text \<open>The elements of the conflict list of \<open>ga_core.detect_conflicts\<close>; only their number is used.\<close>

typedecl conflict

text \<open>
  The fields of an \<open>ACO_MultiAgent\<close> object that never change after \<open>__init__\<close>.
  \<open>MOVE_DIAG\<close>, \<open>MOVE_ORTH\<close> and \<open>detect_conflicts\<close> are imported from \<open>ga_core\<close>, which
  is not part of the sources at hand: they are parameters here. \<open>env\<close> is only passed to
  \<open>create_graph\<close> and \<open>verbose\<close> only switches printing; both are left out.
\<close>

record aco =
  G :: graph
  starts :: "node list"
  pickups :: "node list"
  drops :: "node list"
  alpha :: real
  beta :: real
  rho :: real
  Q :: real
  num_ants :: int
  iterations :: int
  MIN_SEP :: real
  w_dist :: real
  w_conf :: real
  MOVE_DIAG :: real
  MOVE_ORTH :: real
  detect_conflicts :: "node list list \<Rightarrow> conflict list \<times> real"

text \<open>
  The mutable state: the pheromone table (a \<open>defaultdict\<close> with default \<open>0.01\<close>) and the
  global generator of module \<open>random\<close>. The generator is an oracle: \<open>rand_float k\<close> is what
  the \<open>k\<close>-th call returns when it is \<open>random.random()\<close>, \<open>rand_index k\<close> the raw natural
  number the \<open>k\<close>-th call reduces to an index when it is \<open>random.choice\<close>.
\<close>

record state =
  pheromone :: trails
  rand_float :: "nat \<Rightarrow> real"
  rand_index :: "nat \<Rightarrow> nat"
  rand_calls :: nat

definition eps :: real where
  "eps = 1 / 10 ^ 9"

definition tau0 :: real where
  "tau0 = 1 / 100"

section \<open>Primitive operations\<close>

text \<open>\<open>random.random()\<close> and \<open>random.choice(seq)\<close>; the latter raises \<open>IndexError\<close> on an empty sequence.\<close>

definition random_random :: "state \<Rightarrow> real \<times> state" where
  "random_random st = (rand_float st (rand_calls st), st\<lparr>rand_calls := Suc (rand_calls st)\<rparr>)"

definition random_choice :: "'a list \<Rightarrow> state \<Rightarrow> error + ('a \<times> state)" where
  "random_choice xs st =
     (if xs = [] then Inl IndexError
      else Inr (xs ! (rand_index st (rand_calls st) mod length xs),
                st\<lparr>rand_calls := Suc (rand_calls st)\<rparr>))"

text \<open>
  Reading \<open>self.pheromone[k]\<close>: a missing key is inserted with the default and the default is
  returned.
\<close>

definition ph_read :: "trails \<Rightarrow> edge \<Rightarrow> real \<times> trails" where
  "ph_read ph k = (case ph k of Some x \<Rightarrow> (x, ph) | None \<Rightarrow> (tau0, ph(k \<mapsto> tau0)))"

text \<open>
  Python's \<open>x ** y\<close> on floats: the real power for a positive base; \<open>0.0 ** y\<close> is \<open>1.0\<close>,
  \<open>0.0\<close> or \<open>ZeroDivisionError\<close> by the sign of \<open>y\<close>; a negative base with an integral
  exponent is the integer power, and with any other exponent the result is a complex
  number, on which the later comparison \<open>r <= acc\<close> raises \<open>TypeError\<close>.
\<close>

definition py_pow :: "real \<Rightarrow> real \<Rightarrow> error + real" where
  "py_pow x y =
     (if 0 < x then Inr (x powr y)
      else if x = 0 then (if y = 0 then Inr 1 else if 0 < y then Inr 0 else Inl ZeroDivisionError)
      else if y \<in> \<int> then Inr (x powi \<lfloor>y\<rfloor>)
      else Inl TypeError)"

text \<open>\<open>list[i]\<close> for a non-negative index.\<close>

definition nth_err :: "'a list \<Rightarrow> nat \<Rightarrow> error + 'a" where
  "nth_err xs i = (if i < length xs then Inr (xs ! i) else Inl IndexError)"

section \<open>\<open>ACO_MultiAgent\<close>\<close>

text \<open>\<open>__init__\<close>: every pair \<open>(u, v)\<close> with \<open>v\<close> in \<open>G[u]\<close> gets the trail \<open>0.01\<close>.\<close>

definition neighbours :: "graph \<Rightarrow> node \<Rightarrow> node list" where
  "neighbours g u = (case map_of g u of Some vs \<Rightarrow> vs | None \<Rightarrow> [])"

definition init_pheromone :: "graph \<Rightarrow> trails" where
  "init_pheromone g =
     fold (\<lambda>u ph. fold (\<lambda>v ph'. ph'((u, v) \<mapsto> tau0)) (neighbours g u) ph) (map fst g) Map.empty"

definition init_state :: "aco \<Rightarrow> (nat \<Rightarrow> real) \<Rightarrow> (nat \<Rightarrow> nat) \<Rightarrow> state" where
  "init_state self rf ri =
     \<lparr>pheromone = init_pheromone (G self), rand_float = rf, rand_index = ri, rand_calls = 0\<rparr>"

definition num_agents :: "aco \<Rightarrow> nat" where
  "num_agents self = length (starts self)"

definition dist_aco :: "aco \<Rightarrow> node \<Rightarrow> node \<Rightarrow> real" where
  "dist_aco self a b =
     (let dy = \<bar>fst a - fst b\<bar>; dx = \<bar>snd a - snd b\<bar>
      in if dy + dx = 2 then MOVE_DIAG self else MOVE_ORTH self)"

text \<open>
  \<open>choose_next\<close>, first loop: the weight of every neighbour, collected in \<open>probs\<close> and summed
  in \<open>total\<close> (here \<open>tot\<close>). The pheromone table is threaded through because a read may insert a key.
\<close>

fun weights_loop ::
  "aco \<Rightarrow> node \<Rightarrow> nat \<Rightarrow> occupancy \<Rightarrow> node list \<Rightarrow> real list \<Rightarrow> real \<Rightarrow> trails
     \<Rightarrow> error + (real list \<times> real \<times> trails)" where
  "weights_loop self u timestep ocupacion [] probs tot ph = Inr (probs, tot, ph)"
| "weights_loop self u timestep ocupacion (v # vs) probs tot ph =
     (let penal = (if (timestep, v) \<in> ocupacion then 1 / 10000 else 1);
          (tau, ph') = ph_read ph (u, v)
      in if dist_aco self u v + eps = 0 then Inl ZeroDivisionError
         else let eta = 1 / (dist_aco self u v + eps)
              in case py_pow tau (alpha self) of
                   Inl e \<Rightarrow> Inl e
                 | Inr ta \<Rightarrow>
                    (case py_pow eta (beta self) of
                       Inl e \<Rightarrow> Inl e
                     | Inr eb \<Rightarrow>
                        (let val = penal * (ta * eb)
                         in weights_loop self u timestep ocupacion vs (probs @ [val]) (tot + val) ph')))"

text \<open>Second loop: the first neighbour at which the running sum reaches the draw.\<close>

fun select_loop :: "node list \<Rightarrow> real list \<Rightarrow> real \<Rightarrow> real \<Rightarrow> node option" where
  "select_loop (v # vs) (p # ps) r acc =
     (let acc' = acc + p in if r \<le> acc' then Some v else select_loop vs ps r acc')"
| "select_loop _ _ r acc = None"

definition choose_next ::
  "aco \<Rightarrow> node \<Rightarrow> nat \<Rightarrow> occupancy \<Rightarrow> state \<Rightarrow> error + (node \<times> state)" where
  "choose_next self u timestep ocupacion st =
     (case map_of (G self) u of
        None \<Rightarrow> Inl KeyError
      | Some vecinos \<Rightarrow>
         (case weights_loop self u timestep ocupacion vecinos [] 0 (pheromone st) of
            Inl e \<Rightarrow> Inl e
          | Inr (probs, tot, ph') \<Rightarrow>
             (let st1 = st\<lparr>pheromone := ph'\<rparr>
              in if tot = 0 then random_choice vecinos st1
                 else let probs' = map (\<lambda>p. p / tot) probs;
                          (r, st2) = random_random st1
                      in case select_loop vecinos probs' r 0 of
                           Some v \<Rightarrow> Inr (v, st2)
                         | None \<Rightarrow> if vecinos = [] then Inl IndexError
                                   else Inr (last vecinos, st2))))"

text \<open>
  The \<open>while curr != target\<close> loop of \<open>build_route_single\<close> (the function has two copies of
  it, one per leg). It has no bound, so it is a partial function: \<open>None\<close> is "does not
  return".
\<close>

partial_function (option) leg_loop ::
  "aco \<Rightarrow> node \<Rightarrow> node \<Rightarrow> nat \<Rightarrow> route \<Rightarrow> occupancy \<Rightarrow> state
     \<Rightarrow> (error + (nat \<times> route \<times> occupancy \<times> state)) option" where
  "leg_loop self target cur t ruta ocupacion st =
     (if cur \<noteq> target then
        (case choose_next self cur t ocupacion st of
           Inl e \<Rightarrow> Some (Inl e)
         | Inr (nxt, st') \<Rightarrow>
             leg_loop self target nxt (Suc t) (ruta @ [(t, nxt)]) (insert (t, nxt) ocupacion) st')
      else Some (Inr (t, ruta, ocupacion, st)))"

definition build_route_single ::
  "aco \<Rightarrow> node \<Rightarrow> node \<Rightarrow> node \<Rightarrow> occupancy \<Rightarrow> state
     \<Rightarrow> (error + (route \<times> occupancy \<times> state)) option" where
  "build_route_single self start mid endn ocupacion st =
     (case leg_loop self mid start 0 [] ocupacion st of
        None \<Rightarrow> None
      | Some (Inl e) \<Rightarrow> Some (Inl e)
      | Some (Inr (t, ruta, ocupacion', st')) \<Rightarrow>
         (case leg_loop self endn mid t ruta ocupacion' st' of
            None \<Rightarrow> None
          | Some (Inl e) \<Rightarrow> Some (Inl e)
          | Some (Inr (t', ruta', ocupacion'', st'')) \<Rightarrow> Some (Inr (ruta', ocupacion'', st''))))"

text \<open>
  \<open>build_solution_multi\<close>: the agents in index order, all writing the same occupancy ledger,
  which starts empty. \<open>agents_loop\<close> is its \<open>for i in range(self.num_agents)\<close>.
\<close>

fun agents_loop ::
  "aco \<Rightarrow> nat list \<Rightarrow> route list \<Rightarrow> occupancy \<Rightarrow> state
     \<Rightarrow> (error + (route list \<times> occupancy \<times> state)) option" where
  "agents_loop self [] rutas ocupacion st = Some (Inr (rutas, ocupacion, st))"
| "agents_loop self (i # rest) rutas ocupacion st =
     (case nth_err (starts self) i of
        Inl e \<Rightarrow> Some (Inl e)
      | Inr start \<Rightarrow>
         (case nth_err (pickups self) i of
            Inl e \<Rightarrow> Some (Inl e)
          | Inr mid \<Rightarrow>
             (case nth_err (drops self) i of
                Inl e \<Rightarrow> Some (Inl e)
              | Inr endn \<Rightarrow>
                 (case build_route_single self start mid endn ocupacion st of
                    None \<Rightarrow> None
                  | Some (Inl e) \<Rightarrow> Some (Inl e)
                  | Some (Inr (ruta_i, ocupacion', st')) \<Rightarrow>
                      agents_loop self rest (rutas @ [ruta_i]) ocupacion' st'))))"

definition build_solution_multi ::
  "aco \<Rightarrow> state \<Rightarrow> (error + (route list \<times> state)) option" where
  "build_solution_multi self st =
     (case agents_loop self [0..<num_agents self] [] {} st of
        None \<Rightarrow> None
      | Some (Inl e) \<Rightarrow> Some (Inl e)
      | Some (Inr (rutas, ocupacion, st')) \<Rightarrow> Some (Inr (rutas, st')))"

text \<open>\<open>zip(nodos[:-1], nodos[1:])\<close>: the pairs of consecutive entries of a list.\<close>

definition steps :: "'a list \<Rightarrow> ('a \<times> 'a) list" where
  "steps nodos = zip (butlast nodos) (tl nodos)"

definition nodes_of :: "route \<Rightarrow> node list" where
  "nodes_of r = map snd r"

text \<open>\<open>score_solution\<close> returns \<open>(total_dist + penalty, total_dist, len(conflicts))\<close>.\<close>

definition score_solution :: "aco \<Rightarrow> route list \<Rightarrow> real \<times> real \<times> nat" where
  "score_solution self rutas =
     (let total_dist =
            fold (\<lambda>r td. fold (\<lambda>(a, b) td'. td' + dist_aco self a b) (steps (nodes_of r)) td) rutas 0;
          (conflicts, min_dist) = detect_conflicts self (map nodes_of rutas);
          penalty = w_conf self * real (length conflicts)
      in (total_dist + penalty, total_dist, length conflicts))"

text \<open>\<open>evaporate\<close> scales every stored trail; keys that are not stored keep the default.\<close>

definition evaporate :: "aco \<Rightarrow> trails \<Rightarrow> trails" where
  "evaporate self ph = (\<lambda>k. case ph k of None \<Rightarrow> None | Some x \<Rightarrow> Some (x * (1 - rho self)))"

text \<open>\<open>self.pheromone[(a, b)] += dep\<close>: a read (with the default) followed by a store.\<close>

definition ph_add :: "real \<Rightarrow> edge \<Rightarrow> trails \<Rightarrow> trails" where
  "ph_add dep k ph = ph(k \<mapsto> fst (ph_read ph k) + dep)"

definition reinforce :: "aco \<Rightarrow> route list \<Rightarrow> real \<Rightarrow> trails \<Rightarrow> error + trails" where
  "reinforce self rutas score ph =
     (if score + eps = 0 then Inl ZeroDivisionError
      else let dep = Q self / (score + eps)
           in Inr (fold (\<lambda>ruta ph'. fold (ph_add dep) (steps (nodes_of ruta)) ph') rutas ph))"

text \<open>
  \<open>run\<close>. \<open>ants_loop\<close> is \<open>for _ in range(self.num_ants)\<close>, \<open>iteration\<close> the body of
  \<open>for it in range(1, self.iterations + 1)\<close> and \<open>iter_loop\<close> that loop. The incumbent
  \<open>(best_routes, best_score)\<close> is \<open>None\<close> while it is still \<open>(None, float("inf"))\<close>, which
  every real score improves on. \<open>list.sort\<close> is stable, as \<open>sort_key\<close> is.
\<close>

type_synonym candidate = "real \<times> route list"
type_synonym incumbent = "(route list \<times> real) option"

fun ants_loop ::
  "aco \<Rightarrow> nat \<Rightarrow> candidate list \<Rightarrow> state \<Rightarrow> (error + (candidate list \<times> state)) option" where
  "ants_loop self 0 candidatos st = Some (Inr (candidatos, st))"
| "ants_loop self (Suc n) candidatos st =
     (case build_solution_multi self st of
        None \<Rightarrow> None
      | Some (Inl e) \<Rightarrow> Some (Inl e)
      | Some (Inr (rutas, st')) \<Rightarrow>
         (case score_solution self rutas of
            (score, d, conf) \<Rightarrow> ants_loop self n (candidatos @ [(score, rutas)]) st'))"

definition improve :: "incumbent \<Rightarrow> candidate \<Rightarrow> incumbent" where
  "improve best c =
     (case best of
        None \<Rightarrow> Some (snd c, fst c)
      | Some (best_routes, best_score) \<Rightarrow>
          if fst c < best_score then Some (snd c, fst c) else Some (best_routes, best_score))"

definition iteration ::
  "aco \<Rightarrow> incumbent \<Rightarrow> state \<Rightarrow> (error + (incumbent \<times> state)) option" where
  "iteration self best st =
     (case ants_loop self (nat (num_ants self)) [] st of
        None \<Rightarrow> None
      | Some (Inl e) \<Rightarrow> Some (Inl e)
      | Some (Inr (candidatos, st1)) \<Rightarrow>
         (case sort_key fst candidatos of
            [] \<Rightarrow> Some (Inl IndexError)
          | (score_best, rutas_best) # _ \<Rightarrow>
             (case reinforce self rutas_best score_best (evaporate self (pheromone st1)) of
                Inl e \<Rightarrow> Some (Inl e)
              | Inr ph' \<Rightarrow>
                  Some (Inr (improve best (score_best, rutas_best), st1\<lparr>pheromone := ph'\<rparr>)))))"

fun iter_loop ::
  "aco \<Rightarrow> nat \<Rightarrow> incumbent \<Rightarrow> state \<Rightarrow> (error + (incumbent \<times> state)) option" where
  "iter_loop self 0 best st = Some (Inr (best, st))"
| "iter_loop self (Suc n) best st =
     (case iteration self best st of
        None \<Rightarrow> None
      | Some (Inl e) \<Rightarrow> Some (Inl e)
      | Some (Inr (best', st')) \<Rightarrow> iter_loop self n best' st')"

definition run :: "aco \<Rightarrow> state \<Rightarrow> (error + (incumbent \<times> state)) option" where
  "run self st = iter_loop self (nat (iterations self)) None st"

section \<open>Notions used to state the properties\<close>

subsection \<open>Trails\<close>

text \<open>
  \<open>trail ph k\<close> is the value a read of \<open>self.pheromone[k]\<close> returns; \<open>traversed\<close> lists the
  pairs of consecutive recorded nodes of the routes of a solution, in the order in which
  \<open>score_solution\<close> and \<open>reinforce\<close> visit them. A \<open>cycle\<close> is what one iteration does to the
  table for the routes it reinforces: \<open>evaporate\<close>, then \<open>reinforce\<close> with their score.
\<close>

definition trail :: "trails \<Rightarrow> edge \<Rightarrow> real" where
  "trail ph k = fst (ph_read ph k)"

definition trails_pos :: "trails \<Rightarrow> bool" where
  "trails_pos ph = (\<forall>k x. ph k = Some x \<longrightarrow> 0 < x)"

definition traversed :: "route list \<Rightarrow> edge list" where
  "traversed rutas = concat (map (\<lambda>ruta. steps (nodes_of ruta)) rutas)"

definition total_dist_of :: "aco \<Rightarrow> route list \<Rightarrow> real" where
  "total_dist_of self rutas = sum_list (map (\<lambda>(a, b). dist_aco self a b) (traversed rutas))"



definition touch :: "trails \<Rightarrow> node \<Rightarrow> node list \<Rightarrow> trails" where
  "touch ph u vs = fold (\<lambda>v ph'. snd (ph_read ph' (u, v))) vs ph"

subsection \<open>The transition rule in the words of the specification\<close>

text \<open>
  \<open>desirability\<close> is the weight as the specification writes it,
  \<open>penalty(v) * trail(u,v)^alpha * (1/dist(u,v))^beta\<close>; \<open>code_weight\<close> is the same with the
  guard of the code, \<open>1 / (dist(u,v) + 1e-9)\<close>. \<open>spec_choice\<close> is the selection rule of the
  specification for a list of weights \<open>ws\<close>, a draw \<open>r\<close> of \<open>random.random()\<close> and a raw index
  \<open>j\<close> of \<open>random.choice\<close>. \<open>weights_ok\<close> says that the powers of the rule are powers of
  positive numbers.
\<close>

definition penalty :: "occupancy \<Rightarrow> nat \<Rightarrow> node \<Rightarrow> real" where
  "penalty ocupacion t v = (if (t, v) \<in> ocupacion then 1 / 10000 else 1)"

definition code_weight :: "aco \<Rightarrow> trails \<Rightarrow> occupancy \<Rightarrow> nat \<Rightarrow> node \<Rightarrow> node \<Rightarrow> real" where
  "code_weight self ph ocupacion t u v =
     penalty ocupacion t v
       * (trail ph (u, v) powr alpha self * (1 / (dist_aco self u v + eps)) powr beta self)"


definition cumulative :: "real list \<Rightarrow> nat \<Rightarrow> real" where
  "cumulative ws i = sum_list (take (Suc i) (map (\<lambda>w. w / sum_list ws) ws))"

definition spec_choice :: "node list \<Rightarrow> real list \<Rightarrow> real \<Rightarrow> nat \<Rightarrow> node" where
  "spec_choice vs ws r j =
     (if sum_list ws = 0 then vs ! (j mod length vs)
      else case find (\<lambda>i. r \<le> cumulative ws i) [0..<length vs] of
             Some i \<Rightarrow> vs ! i
           | None \<Rightarrow> last vs)"

definition weights_ok :: "aco \<Rightarrow> trails \<Rightarrow> node \<Rightarrow> node list \<Rightarrow> bool" where
  "weights_ok self ph u vs =
     (\<forall>v \<in> set vs. 0 < trail ph (u, v) \<and> 0 < dist_aco self u v + eps)"

subsection \<open>Walks\<close>

text \<open>
  \<open>chain g u vs\<close>: starting from \<open>u\<close>, every node of \<open>vs\<close> is in the neighbour list of the one
  before it. \<open>walk_cost\<close> is the cost of all the moves of an agent, the first one from its
  start included.
\<close>

fun chain :: "graph \<Rightarrow> node \<Rightarrow> node list \<Rightarrow> bool" where
  "chain g u [] = True"
| "chain g u (v # vs) = (v \<in> set (neighbours g u) \<and> chain g v vs)"

definition walk_cost :: "aco \<Rightarrow> node \<Rightarrow> route \<Rightarrow> real" where
  "walk_cost self start ruta =
     sum_list (map (\<lambda>(a, b). dist_aco self a b) (steps (start # nodes_of ruta)))"

subsection \<open>Candidates of a run\<close>

text \<open>
  \<open>first_lowest\<close> is the first candidate of a list that has the lowest score. \<open>track\<close> is the
  incumbent of \<open>run\<close> seen as a candidate, updated with \<open>better\<close> on strict improvement only.
  \<open>run_candidates\<close> replays a run and lists the candidates its iterations build.
\<close>

definition lowest :: "candidate list \<Rightarrow> real" where
  "lowest cs = Min (fst ` set cs)"

definition first_lowest :: "candidate list \<Rightarrow> candidate option" where
  "first_lowest cs = find (\<lambda>c. fst c = lowest cs) cs"

definition better :: "candidate \<Rightarrow> candidate \<Rightarrow> candidate" where
  "better d c = (if fst d < fst c then d else c)"

definition track :: "candidate option \<Rightarrow> candidate list \<Rightarrow> candidate option" where
  "track b cs = fold (\<lambda>d b'. Some (case b' of None \<Rightarrow> d | Some c \<Rightarrow> better d c)) cs b"

definition as_candidate :: "incumbent \<Rightarrow> candidate option" where
  "as_candidate best = map_option (\<lambda>(rutas, score). (score, rutas)) best"

fun run_candidates :: "aco \<Rightarrow> nat \<Rightarrow> state \<Rightarrow> candidate list list option" where
  "run_candidates self 0 st = Some []"
| "run_candidates self (Suc n) st =
     (case ants_loop self (nat (num_ants self)) [] st of
        Some (Inr (candidatos, st1)) \<Rightarrow>
          (case iteration self None st of
             Some (Inr (best, st')) \<Rightarrow> map_option ((#) candidatos) (run_candidates self n st')
           | _ \<Rightarrow> None)
      | _ \<Rightarrow> None)"

subsection \<open>Parameters read by the methods\<close>

text \<open>
  Two objects agree on what \<open>choose_next\<close> reads (\<open>same_walk\<close>), on what building and
  scoring a solution reads (\<open>same_plan\<close>), on what \<open>run\<close> reads (\<open>same_run\<close>).
\<close>

definition same_walk :: "aco \<Rightarrow> aco \<Rightarrow> bool" where
  "same_walk p q =
     (G p = G q \<and> alpha p = alpha q \<and> beta p = beta q \<and>
      MOVE_DIAG p = MOVE_DIAG q \<and> MOVE_ORTH p = MOVE_ORTH q)"

definition same_plan :: "aco \<Rightarrow> aco \<Rightarrow> bool" where
  "same_plan p q =
     (same_walk p q \<and> starts p = starts q \<and> pickups p = pickups q \<and> drops p = drops q \<and>
      w_conf p = w_conf q \<and> detect_conflicts p = detect_conflicts q)"

definition same_run :: "aco \<Rightarrow> aco \<Rightarrow> bool" where
  "same_run p q =
     (same_plan p q \<and> rho p = rho q \<and> Q p = Q q \<and> num_ants p = num_ants q \<and>
      iterations p = iterations q)"

subsection \<open>Concrete inputs\<close>

text \<open>
  Small environments on which the functions are evaluated. \<open>corridor\<close> is a row of three
  free cells, \<open>square\<close> a free 2x2 grid with its diagonals, \<open>trap\<close> a row whose cell \<open>(0,2)\<close>
  is an obstacle, so that \<open>(0,3)\<close> is free and has no neighbour. The constants of \<open>ga_core\<close>
  are given the values \<open>MOVE_ORTH = 1\<close> and \<open>MOVE_DIAG = 3/2\<close>, the other parameters the
  defaults of \<open>__init__\<close> except for one ant and one iteration, and \<open>detect_conflicts\<close>
  reports no conflict, as for a single agent. The draws of the generator are fixed
  functions of the call index.
\<close>

definition corridor :: aco where
  "corridor =
     \<lparr>G = [((0, 0), [(0, 1)]), ((0, 1), [(0, 0), (0, 2)]), ((0, 2), [(0, 1)])],
      starts = [(0, 0)], pickups = [(0, 1)], drops = [(0, 2)],
      alpha = 1, beta = 3, rho = 1 / 10, Q = 10, num_ants = 1, iterations = 1,
      MIN_SEP = 6, w_dist = 1, w_conf = 1000, MOVE_DIAG = 3 / 2, MOVE_ORTH = 1,
      detect_conflicts = (\<lambda>_. ([], 0))\<rparr>"


definition trap :: aco where
  "trap =
     \<lparr>G = [((0, 0), [(0, 1)]), ((0, 1), [(0, 0)]), ((0, 3), [])],
      starts = [(0, 0)], pickups = [(0, 3)], drops = [(0, 3)],
      alpha = 1, beta = 3, rho = 1 / 10, Q = 10, num_ants = 1, iterations = 1,
      MIN_SEP = 6, w_dist = 1, w_conf = 1000, MOVE_DIAG = 3 / 2, MOVE_ORTH = 1,
      detect_conflicts = (\<lambda>_. ([], 0))\<rparr>"

definition no_index :: "nat \<Rightarrow> nat" where
  "no_index k = 0"

definition high_draws :: "nat \<Rightarrow> real" where
  "high_draws k = 9 / 10"


definition detour_draws :: "nat \<Rightarrow> real" where
  "detour_draws k = (if k = 1 then 1 / 10 else 9 / 10)"


definition trap_state :: state where
  "trap_state = init_state trap high_draws no_index"

definition corridor_st :: "(nat \<Rightarrow> real) \<Rightarrow> nat \<Rightarrow> state" where
  "corridor_st rf k =
     \<lparr>pheromone = init_pheromone (G corridor), rand_float = rf, rand_index = no_index,
      rand_calls = k\<rparr>"

definition corridor_route0 :: route where
  "corridor_route0 = [(0, (0, 1)), (1, (0, 2))]"

definition detour_route :: route where
  "detour_route = [(0, (0, 1)), (1, (0, 0)), (2, (0, 1)), (3, (0, 2))]"

definition lax :: aco where
  "lax = corridor\<lparr>rho := 0, Q := 0\<rparr>"

definition no_iterations :: aco where
  "no_iterations = corridor\<lparr>iterations := 0\<rparr>"

definition no_ants :: aco where
  "no_ants = corridor\<lparr>num_ants := 0\<rparr>"

section \<open>Pheromone table\<close>

lemma trail_simps: "trail ph k = (case ph k of Some x \<Rightarrow> x | None \<Rightarrow> tau0)"
  by (simp add: trail_def ph_read_def split: option.splits)

lemma ph_add_apply: "ph_add dep e ph k = (if k = e then Some (trail ph e + dep) else ph k)"
  by (simp add: ph_add_def trail_def)

lemma trail_ph_add: "trail (ph_add dep e ph) k = (if k = e then trail ph e + dep else trail ph k)"
  by (simp add: trail_simps ph_add_apply)

lemma fold_ph_add:
  "fold (ph_add dep) es ph k =
     (if count_list es k = 0 then ph k else Some (trail ph k + real (count_list es k) * dep))"
proof (induction es arbitrary: ph)
  case Nil
  then show ?case by simp
next
  case (Cons e es)
  have "fold (ph_add dep) (e # es) ph k = fold (ph_add dep) es (ph_add dep e ph) k"
    by simp
  also have "\<dots> = (if count_list es k = 0 then ph_add dep e ph k
                    else Some (trail (ph_add dep e ph) k + real (count_list es k) * dep))"
    by (rule Cons.IH)
  also have "\<dots> = (if count_list (e # es) k = 0 then ph k
                    else Some (trail ph k + real (count_list (e # es) k) * dep))"
    by (simp add: ph_add_apply trail_ph_add algebra_simps)
  finally show ?case .
qed

lemma fold_routes_traversed:
  "fold (\<lambda>ruta ph'. fold f (steps (nodes_of ruta)) ph') rutas ph = fold f (traversed rutas) ph"
  by (induction rutas arbitrary: ph) (simp_all add: traversed_def)

lemma reinforce_closed:
  assumes "reinforce self rutas score ph = Inr ph'"
  shows "ph' k = (if count_list (traversed rutas) k = 0 then ph k
                  else Some (trail ph k + real (count_list (traversed rutas) k) * (Q self / (score + eps))))"
  using assms
  by (auto simp: reinforce_def Let_def fold_routes_traversed fold_ph_add split: if_splits)

lemma trails_posD: "trails_pos ph \<Longrightarrow> ph k = Some x \<Longrightarrow> 0 < x"
  unfolding trails_pos_def by blast

lemma trails_posI: "(\<And>k x. ph k = Some x \<Longrightarrow> 0 < x) \<Longrightarrow> trails_pos ph"
  unfolding trails_pos_def by blast

lemma tau0_pos: "0 < tau0"
  by (simp add: tau0_def)

lemma eps_pos: "0 < eps"
  by (simp add: eps_def)

lemma trail_pos: "trails_pos ph \<Longrightarrow> 0 < trail ph k"
  by (cases "ph k") (auto simp: trail_simps tau0_pos dest: trails_posD)



lemma fold_upd_vals:
  assumes "\<And>k x. ph k = Some x \<Longrightarrow> x = c"
  shows "fold (\<lambda>v ph'. ph'(f v \<mapsto> c)) vs ph k = Some x \<Longrightarrow> x = c"
  using assms
proof (induction vs arbitrary: ph)
  case Nil
  then show ?case by simp
next
  case (Cons v vs)
  show ?case
  proof (rule Cons.IH)
    show "fold (\<lambda>v ph'. ph'(f v \<mapsto> c)) vs (ph(f v \<mapsto> c)) k = Some x"
      using Cons.prems(1) by (simp only: fold_simps)
  next
    fix k' x' assume "(ph(f v \<mapsto> c)) k' = Some x'"
    then show "x' = c" using Cons.prems(2)[of k' x'] by (cases "k' = f v") auto
  qed
qed

lemma init_pheromone_vals:
  assumes "init_pheromone g k = Some x"
  shows "x = tau0"
proof -
  have outer: "fold (\<lambda>u ph. fold (\<lambda>v ph'. ph'((u, v) \<mapsto> tau0)) (neighbours g u) ph) us ph k = Some x
      \<Longrightarrow> (\<And>k x. ph k = Some x \<Longrightarrow> x = tau0) \<Longrightarrow> x = tau0" for us and ph :: trails
  proof (induction us arbitrary: ph)
    case Nil
    then show ?case by simp
  next
    case (Cons u us)
    show ?case
    proof (rule Cons.IH)
      show "fold (\<lambda>u ph. fold (\<lambda>v ph'. ph'((u, v) \<mapsto> tau0)) (neighbours g u) ph) us
              (fold (\<lambda>v ph'. ph'((u, v) \<mapsto> tau0)) (neighbours g u) ph) k = Some x"
        using Cons.prems(1) by (simp only: fold_simps)
    next
      fix k' x' assume "fold (\<lambda>v ph'. ph'((u, v) \<mapsto> tau0)) (neighbours g u) ph k' = Some x'"
      then show "x' = tau0"
        using fold_upd_vals[of ph tau0 "\<lambda>v. (u, v)" "neighbours g u" k' x'] Cons.prems(2) by blast
    qed
  qed
  show ?thesis using outer[of "map fst g" Map.empty] assms by (simp add: init_pheromone_def)
qed

lemma fold_add_dist:
  "fold (\<lambda>(a, b) td'. td' + f a b) es td = td + sum_list (map (\<lambda>(a, b). f a b) es)"
  by (induction es arbitrary: td) (auto simp: algebra_simps)

lemma total_dist_fold:
  "fold (\<lambda>r td. fold (\<lambda>(a, b) td'. td' + dist_aco self a b) (steps (nodes_of r)) td) rutas 0
     = total_dist_of self rutas"
proof -
  have "fold (\<lambda>r td. fold (\<lambda>(a, b) td'. td' + dist_aco self a b) (steps (nodes_of r)) td) rutas 0
          = fold (\<lambda>(a, b) td'. td' + dist_aco self a b) (traversed rutas) 0"
    by (rule fold_routes_traversed)
  also have "\<dots> = 0 + sum_list (map (\<lambda>(a, b). dist_aco self a b) (traversed rutas))"
    by (rule fold_add_dist)
  finally show ?thesis by (simp add: total_dist_of_def)
qed

lemma score_solution_closed:
  "score_solution self rutas =
     (total_dist_of self rutas
        + w_conf self * real (length (fst (detect_conflicts self (map nodes_of rutas)))),
      total_dist_of self rutas,
      length (fst (detect_conflicts self (map nodes_of rutas))))"
  unfolding score_solution_def total_dist_fold by (simp add: Let_def split: prod.splits)

lemma dist_aco_nonneg: "0 \<le> MOVE_DIAG self \<Longrightarrow> 0 \<le> MOVE_ORTH self \<Longrightarrow> 0 \<le> dist_aco self a b"
  by (simp add: dist_aco_def Let_def)





lemma init_pheromone_pos: "trails_pos (init_pheromone g)"
  by (rule trails_posI) (use init_pheromone_vals tau0_pos in blast)

section \<open>The transition rule\<close>

lemma trail_ph_read: "trail (snd (ph_read ph k)) k' = trail ph k'"
  by (simp add: trail_simps ph_read_def split: option.splits)

lemma fst_ph_read: "fst (ph_read ph k) = trail ph k"
  by (simp add: trail_def)

lemma py_pow_pos: "0 < x \<Longrightarrow> py_pow x y = Inr (x powr y)"
  by (simp add: py_pow_def)

lemma code_weight_ph_read:
  "code_weight self (snd (ph_read ph k)) ocupacion t u v = code_weight self ph ocupacion t u v"
  by (simp add: code_weight_def trail_ph_read)

lemma weights_ok_Cons:
  "weights_ok self ph u (v # vs) \<longleftrightarrow>
     0 < trail ph (u, v) \<and> 0 < dist_aco self u v + eps \<and> weights_ok self ph u vs"
  by (auto simp: weights_ok_def)

lemma weights_ok_ph_read: "weights_ok self (snd (ph_read ph k)) u vs = weights_ok self ph u vs"
  by (simp add: weights_ok_def trail_ph_read)

lemma weights_loop_closed:
  "weights_ok self ph u vs \<Longrightarrow>
   weights_loop self u t ocupacion vs probs tot ph =
     Inr (probs @ map (code_weight self ph ocupacion t u) vs,
          tot + sum_list (map (code_weight self ph ocupacion t u) vs),
          touch ph u vs)"
proof (induction vs arbitrary: probs tot ph)
  case Nil
  then show ?case by (simp add: touch_def)
next
  case (Cons v vs)
  from Cons.prems have tp: "0 < trail ph (u, v)" and dp: "0 < dist_aco self u v + eps"
    and ok: "weights_ok self ph u vs"
    by (simp_all add: weights_ok_Cons)
  obtain tau ph' where r: "ph_read ph (u, v) = (tau, ph')" by (cases "ph_read ph (u, v)")
  then have tau: "tau = trail ph (u, v)" and ph': "ph' = snd (ph_read ph (u, v))"
    by (simp_all add: trail_def)
  have ok': "weights_ok self ph' u vs" using ok by (simp add: ph' weights_ok_ph_read)
  have eta: "0 < 1 / (dist_aco self u v + eps)" using dp by simp
  have cw: "code_weight self ph' ocupacion t u = code_weight self ph ocupacion t u"
    by (rule ext) (simp add: ph' code_weight_ph_read)
  have val: "code_weight self ph ocupacion t u v =
      (if (t, v) \<in> ocupacion then 1 / 10000 else 1) *
        (tau powr alpha self * (1 / (dist_aco self u v + eps)) powr beta self)"
    by (simp add: code_weight_def penalty_def tau)
  have "weights_loop self u t ocupacion (v # vs) probs tot ph =
      weights_loop self u t ocupacion vs (probs @ [code_weight self ph ocupacion t u v])
        (tot + code_weight self ph ocupacion t u v) ph'"
    using dp tp eta
    by (simp add: r Let_def py_pow_pos[OF eta] py_pow_pos[OF tp[folded tau]] val del: divide_pos_pos)
  also have "\<dots> = Inr ((probs @ [code_weight self ph ocupacion t u v]) @ map (code_weight self ph' ocupacion t u) vs,
          (tot + code_weight self ph ocupacion t u v) + sum_list (map (code_weight self ph' ocupacion t u) vs),
          touch ph' u vs)"
    by (rule Cons.IH[OF ok'])
  also have "\<dots> = Inr (probs @ map (code_weight self ph ocupacion t u) (v # vs),
          tot + sum_list (map (code_weight self ph ocupacion t u) (v # vs)),
          touch ph u (v # vs))"
    by (simp add: cw[unfolded ph'] touch_def ph')
  finally show ?case .
qed

lemma find_upt_Suc:
  "find P [0..<Suc n] = (if P 0 then Some 0 else map_option Suc (find (\<lambda>i. P (Suc i)) [0..<n]))"
proof -
  have "[0..<Suc n] = 0 # map Suc [0..<n]"
    by (simp add: upt_conv_Cons map_Suc_upt del: upt_Suc)
  moreover have "find P (map Suc xs) = map_option Suc (find (\<lambda>i. P (Suc i)) xs)" for xs
    by (induction xs) auto
  ultimately show ?thesis by simp
qed

lemma select_loop_find:
  "length ps = length vs \<Longrightarrow>
   select_loop vs ps r acc =
     map_option (\<lambda>i. vs ! i) (find (\<lambda>i. r \<le> acc + sum_list (take (Suc i) ps)) [0..<length vs])"
proof (induction vs ps r acc rule: select_loop.induct)
  case (1 v vs p ps r acc)
  show ?case
  proof (cases "r \<le> acc + p")
    case True
    then show ?thesis by (simp add: find_upt_Suc del: upt_Suc)
  next
    case False
    with 1 show ?thesis
      by (simp add: find_upt_Suc Let_def option.map_comp comp_def add.assoc del: upt_Suc)
  qed
qed simp_all

lemma select_loop_mem: "select_loop vs ps r acc = Some v \<Longrightarrow> v \<in> set vs"
  by (induction vs ps r acc rule: select_loop.induct) (auto simp: Let_def split: if_splits)

lemma sum_list_map_div: "sum_list (map (\<lambda>p. p / c) ws) = sum_list ws / (c::real)"
  by (induction ws) (simp_all add: add_divide_distrib)

lemma ph_read_present: "ph k \<noteq> None \<Longrightarrow> snd (ph_read ph k) = ph"
  by (auto simp: ph_read_def)

lemma touch_present:
  assumes "\<And>v. v \<in> set vs \<Longrightarrow> ph (u, v) \<noteq> None"
  shows "touch ph u vs = ph"
  using assms unfolding touch_def
proof (induction vs)
  case Nil
  then show ?case by simp
next
  case (Cons v vs)
  have "snd (ph_read ph (u, v)) = ph" by (rule ph_read_present) (simp add: Cons.prems)
  then show ?case using Cons by simp
qed

lemma choose_next_closed:
  assumes g: "map_of (G self) u = Some vs" and ne: "vs \<noteq> []"
    and ok: "weights_ok self (pheromone st) u vs"
  shows "choose_next self u t ocupacion st =
     Inr (spec_choice vs (map (code_weight self (pheromone st) ocupacion t u) vs)
            (rand_float st (rand_calls st)) (rand_index st (rand_calls st)),
          st\<lparr>pheromone := touch (pheromone st) u vs, rand_calls := Suc (rand_calls st)\<rparr>)"
proof -
  let ?ws = "map (code_weight self (pheromone st) ocupacion t u) vs"
  let ?r = "rand_float st (rand_calls st)"
  have wl: "weights_loop self u t ocupacion vs [] 0 (pheromone st)
              = Inr (?ws, sum_list ?ws, touch (pheromone st) u vs)"
    using weights_loop_closed[OF ok, of t ocupacion "[]" 0] by simp
  show ?thesis
  proof (cases "sum_list ?ws = 0")
    case True
    then show ?thesis
      using ne by (simp add: choose_next_def g wl spec_choice_def random_choice_def)
  next
    case False
    have sl: "select_loop vs (map ((\<lambda>p. p / sum_list ?ws) \<circ> code_weight self (pheromone st) ocupacion t u) vs) ?r 0
        = map_option (\<lambda>i. vs ! i) (find (\<lambda>i. ?r \<le> cumulative ?ws i) [0..<length vs])"
      using select_loop_find[of "map (\<lambda>p. p / sum_list ?ws) ?ws" vs ?r 0]
      by (simp add: cumulative_def)
    show ?thesis
      using False ne
      by (simp add: choose_next_def g wl spec_choice_def random_random_def Let_def sl
               split: option.splits)
  qed
qed




lemma weights_okI:
  assumes "trails_pos ph" "0 \<le> MOVE_DIAG self" "0 \<le> MOVE_ORTH self"
  shows "weights_ok self ph u vs"
  unfolding weights_ok_def
proof (intro ballI conjI)
  fix v
  show "0 < trail ph (u, v)" by (rule trail_pos[OF assms(1)])
  show "0 < dist_aco self u v + eps"
    using dist_aco_nonneg[OF assms(2,3), of u v] eps_pos by linarith
qed

lemma random_choice_mem: "random_choice xs st = Inr (x, st') \<Longrightarrow> x \<in> set xs"
  by (auto simp: random_choice_def split: if_splits)

lemma choose_next_in_neighbours:
  assumes "choose_next self u t ocupacion st = Inr (v, st')"
  shows "\<exists>vs. map_of (G self) u = Some vs \<and> v \<in> set vs"
proof -
  from assms obtain vs where g: "map_of (G self) u = Some vs"
    by (auto simp: choose_next_def split: option.splits)
  from assms g obtain probs tot ph' where
    wl: "weights_loop self u t ocupacion vs [] 0 (pheromone st) = Inr (probs, tot, ph')"
    by (auto simp: choose_next_def split: sum.splits)
  have "v \<in> set vs"
  proof (cases "tot = 0")
    case True
    with assms g wl show ?thesis
      by (auto simp: choose_next_def dest: random_choice_mem)
  next
    case False
    with assms g wl show ?thesis
      by (auto simp: choose_next_def Let_def random_random_def
               split: option.splits if_splits dest: select_loop_mem)
  qed
  with g show ?thesis by blast
qed

lemma choose_next_isolated:
  assumes "map_of (G self) u = Some []"
  shows "choose_next self u t ocupacion st = Inl IndexError"
  using assms by (simp add: choose_next_def random_choice_def)





section \<open>Route construction\<close>

lemma chain_append: "chain g u (xs @ ys) = (chain g u xs \<and> chain g (last (u # xs)) ys)"
  by (induction xs arbitrary: u) auto

lemma choose_next_step:
  assumes "choose_next self u t ocupacion st = Inr (v, st')"
  shows "v \<in> set (neighbours (G self) u)"
  using choose_next_in_neighbours[OF assms] by (auto simp: neighbours_def)

lemma leg_loop_done [simp]: "leg_loop self target target t ruta ocupacion st = Some (Inr (t, ruta, ocupacion, st))"
  by (subst leg_loop.simps) simp

lemma leg_loop_step:
  assumes "cur \<noteq> target" and "choose_next self cur t ocupacion st = Inr (nxt, st')"
  shows "leg_loop self target cur t ruta ocupacion st =
         leg_loop self target nxt (Suc t) (ruta @ [(t, nxt)]) (insert (t, nxt) ocupacion) st'"
  using assms by (subst leg_loop.simps) simp

lemma leg_loop_error:
  assumes "cur \<noteq> target" and "choose_next self cur t ocupacion st = Inl e"
  shows "leg_loop self target cur t ruta ocupacion st = Some (Inl e)"
  using assms by (subst leg_loop.simps) simp

lemma leg_loop_result:
  assumes "leg_loop self target cur t ruta ocupacion st = Some y"
  shows "\<forall>t' ruta' ocupacion' st'. y = Inr (t', ruta', ocupacion', st') \<longrightarrow>
           (\<exists>new. ruta' = ruta @ new \<and> t' = t + length new \<and> map fst new = [t..<t'] \<and>
                  chain (G self) cur (map snd new) \<and> last (cur # map snd new) = target \<and>
                  ocupacion' = ocupacion \<union> set new)"
proof (rule leg_loop.raw_induct[where P = "\<lambda>self target cur t ruta ocupacion st y.
    \<forall>t' ruta' ocupacion' st'. y = Inr (t', ruta', ocupacion', st') \<longrightarrow>
           (\<exists>new. ruta' = ruta @ new \<and> t' = t + length new \<and> map fst new = [t..<t'] \<and>
                  chain (G self) cur (map snd new) \<and> last (cur # map snd new) = target \<and>
                  ocupacion' = ocupacion \<union> set new)", OF _ assms], goal_cases)
  case (1 loop self target cur t ruta ocupacion st y)
  show ?case
  proof (cases "cur = target")
    case True
    with 1(2) have y: "y = Inr (t, ruta, ocupacion, st)" by simp
    show ?thesis
    proof (intro allI impI)
      fix t' ruta' ocupacion' st'
      assume "y = Inr (t', ruta', ocupacion', st')"
      with y True show "\<exists>new. ruta' = ruta @ new \<and> t' = t + length new \<and> map fst new = [t..<t'] \<and>
                  chain (G self) cur (map snd new) \<and> last (cur # map snd new) = target \<and>
                  ocupacion' = ocupacion \<union> set new"
        by (intro exI[of _ "[]"]) simp
    qed
  next
    case False
    show ?thesis
    proof (cases "choose_next self cur t ocupacion st")
      case (Inl e)
      with False 1(2) have "y = Inl e" by simp
      then show ?thesis by simp
    next
      case (Inr p)
      obtain nxt st1 where p: "p = (nxt, st1)" by (cases p)
      from False Inr p 1(2)
      have rec: "loop self target nxt (Suc t) (ruta @ [(t, nxt)]) (insert (t, nxt) ocupacion) st1 = Some y"
        by simp
      have nb: "nxt \<in> set (neighbours (G self) cur)"
        by (rule choose_next_step[OF Inr[unfolded p]])
      show ?thesis
      proof (intro allI impI)
        fix t' ruta' ocupacion' st'
        assume y: "y = Inr (t', ruta', ocupacion', st')"
        from 1(1)[OF rec] y obtain new where
          n: "ruta' = (ruta @ [(t, nxt)]) @ new" "t' = Suc t + length new"
             "map fst new = [Suc t..<t']" "chain (G self) nxt (map snd new)"
             "last (nxt # map snd new) = target" "ocupacion' = insert (t, nxt) ocupacion \<union> set new"
          by blast
        have lt: "t < t'" using n(2) by simp
        have mf: "map fst ((t, nxt) # new) = [t..<t']"
          using n(3) upt_conv_Cons[OF lt] by simp
        have "ruta' = ruta @ ((t, nxt) # new)" using n(1) by simp
        moreover have "t' = t + length ((t, nxt) # new)" using n(2) by simp
        moreover have "chain (G self) cur (map snd ((t, nxt) # new))" using n(4) nb by simp
        moreover have "last (cur # map snd ((t, nxt) # new)) = target" using n(5) by simp
        moreover have "ocupacion' = ocupacion \<union> set ((t, nxt) # new)" using n(6) by simp
        ultimately show "\<exists>new. ruta' = ruta @ new \<and> t' = t + length new \<and> map fst new = [t..<t'] \<and>
                  chain (G self) cur (map snd new) \<and> last (cur # map snd new) = target \<and>
                  ocupacion' = ocupacion \<union> set new"
          using mf by blast
      qed
    qed
  qed
qed

lemma build_route_single_result:
  assumes "build_route_single self start mid endn ocupacion st = Some (Inr (ruta, ocupacion', st'))"
  shows "\<exists>leg1 leg2. ruta = leg1 @ leg2 \<and> map fst ruta = [0..<length ruta] \<and>
           chain (G self) start (nodes_of leg1) \<and> last (start # nodes_of leg1) = mid \<and>
           chain (G self) mid (nodes_of leg2) \<and> last (mid # nodes_of leg2) = endn \<and>
           ocupacion' = ocupacion \<union> set ruta"
proof -
  from assms obtain t1 r1 o1 s1 where
    l1: "leg_loop self mid start 0 [] ocupacion st = Some (Inr (t1, r1, o1, s1))"
    by (auto simp: build_route_single_def split: option.splits sum.splits)
  with assms obtain t2 where
    l2: "leg_loop self endn mid t1 r1 o1 s1 = Some (Inr (t2, ruta, ocupacion', st'))"
    by (auto simp: build_route_single_def split: option.splits sum.splits)
  from leg_loop_result[OF l1] obtain leg1 where
    a: "r1 = leg1" "t1 = length leg1" "map fst leg1 = [0..<t1]"
       "chain (G self) start (map snd leg1)" "last (start # map snd leg1) = mid"
       "o1 = ocupacion \<union> set leg1"
    by auto
  from leg_loop_result[OF l2] obtain leg2 where
    b: "ruta = r1 @ leg2" "t2 = t1 + length leg2" "map fst leg2 = [t1..<t2]"
       "chain (G self) mid (map snd leg2)" "last (mid # map snd leg2) = endn"
       "ocupacion' = o1 \<union> set leg2"
    by auto
  have "map fst ruta = [0..<t1] @ [t1..<t2]" using a b by simp
  also have "\<dots> = [0..<length ruta]" using a b by (simp add: upt_add_eq_append[symmetric])
  finally have ts: "map fst ruta = [0..<length ruta]" .
  show ?thesis
    using a b ts by (intro exI[of _ leg1] exI[of _ leg2]) (auto simp: nodes_of_def)
qed

lemma corridor_init:
  "init_pheromone (G corridor) = Map.empty(
     ((0, 0), (0, 1)) \<mapsto> tau0, ((0, 1), (0, 0)) \<mapsto> tau0, ((0, 1), (0, 2)) \<mapsto> tau0,
     ((0, 2), (0, 1)) \<mapsto> tau0)"
  by (simp add: init_pheromone_def corridor_def neighbours_def)

lemma corridor_st_sel [simp]:
  "pheromone (corridor_st rf k) = init_pheromone (G corridor)"
  "rand_float (corridor_st rf k) = rf"
  "rand_index (corridor_st rf k) = no_index"
  "rand_calls (corridor_st rf k) = k"
  by (simp_all add: corridor_st_def)

lemma corridor_st_next:
  "(corridor_st rf k)\<lparr>pheromone := init_pheromone (G corridor), rand_calls := Suc k\<rparr>
     = corridor_st rf (Suc k)"
  by (simp add: corridor_st_def)

lemma corridor_ok: "weights_ok corridor (pheromone (corridor_st rf k)) u vs"
  by (rule weights_okI) (simp_all add: init_pheromone_pos, simp_all add: corridor_def)

lemma spec_choice_single: "spec_choice [v] ws r j = v"
  by (simp add: spec_choice_def split: option.splits)

lemma spec_choice_equal_pair:
  assumes "0 < w"
  shows "spec_choice [a, b] [w, w] r j = (if r \<le> 1 / 2 then a else b)"
proof -
  have c0: "cumulative [w, w] 0 = 1 / 2" using assms by (simp add: cumulative_def)
  have "[0..<length [a, b]] = [0, Suc 0]" by (simp add: upt_conv_Cons)
  then show ?thesis
    using assms by (simp add: spec_choice_def c0 split: option.splits)
qed

lemma corridor_from_start:
  "choose_next corridor (0, 0) t ocupacion (corridor_st rf k) = Inr ((0, 1), corridor_st rf (Suc k))"
proof -
  have g: "map_of (G corridor) (0, 0) = Some [(0, 1)]" by (simp add: corridor_def)
  have ne: "[(0, 1)] \<noteq> ([] :: node list)" by simp
  have tp: "touch (init_pheromone (G corridor)) (0, 0) [(0, 1)] = init_pheromone (G corridor)"
    by (rule touch_present) (auto simp: corridor_init)
  show ?thesis
    unfolding choose_next_closed[OF g ne corridor_ok] spec_choice_single
    by (simp only: corridor_st_sel tp corridor_st_next)
qed

lemma corridor_weight:
  assumes "v = (0, 0) \<or> v = (0, 2)"
  shows "code_weight corridor (init_pheromone (G corridor)) ocupacion t (0, 1) v
     = penalty ocupacion t v * (tau0 * (1 / (1 + eps)) ^ 3)"
proof -
  have tr: "trail (init_pheromone (G corridor)) ((0, 1), v) = tau0"
    using assms by (auto simp: corridor_init trail_simps)
  have d: "dist_aco corridor (0, 1) v = 1"
    using assms by (auto simp: dist_aco_def corridor_def)
  have p: "0 < 1 / (1 + eps)" using eps_pos by simp
  have a: "alpha corridor = 1" and b: "beta corridor = 3" by (simp_all add: corridor_def)
  have "tau0 powr 1 = tau0" using tau0_pos by simp
  moreover have "(1 / (1 + eps)) powr 3 = (1 / (1 + eps)) ^ 3"
    using p by (simp only: powr_numeral)
  ultimately show ?thesis
    unfolding code_weight_def tr d a b by simp
qed

lemma corridor_from_middle:
  assumes "(t, (0, 0)) \<notin> ocupacion" and "(t, (0, 2)) \<notin> ocupacion"
  shows "choose_next corridor (0, 1) t ocupacion (corridor_st rf k)
           = Inr (if rf k \<le> 1 / 2 then (0, 0) else (0, 2), corridor_st rf (Suc k))"
proof -
  have g: "map_of (G corridor) (0, 1) = Some [(0, 0), (0, 2)]" by (simp add: corridor_def)
  have ne: "[(0, 0), (0, 2)] \<noteq> ([] :: node list)" by simp
  have tp: "touch (init_pheromone (G corridor)) (0, 1) [(0, 0), (0, 2)] = init_pheromone (G corridor)"
    by (rule touch_present) (auto simp: corridor_init)
  have w: "map (code_weight corridor (init_pheromone (G corridor)) ocupacion t (0, 1)) [(0, 0), (0, 2)]
             = [tau0 * (1 / (1 + eps)) ^ 3, tau0 * (1 / (1 + eps)) ^ 3]"
    using assms by (simp add: corridor_weight penalty_def)
  have pos: "0 < tau0 * (1 / (1 + eps)) ^ 3"
    using tau0_pos eps_pos by simp
  show ?thesis
    unfolding choose_next_closed[OF g ne corridor_ok]
    by (simp only: corridor_st_sel w spec_choice_equal_pair[OF pos] tp corridor_st_next)
qed

lemma corridor_route:
  assumes "1 / 2 < rf (Suc k)"
  shows "build_route_single corridor (0, 0) (0, 1) (0, 2) {} (corridor_st rf k)
           = Some (Inr ([(0, (0, 1)), (Suc 0, (0, 2))], {(0, (0, 1)), (Suc 0, (0, 2))},
                        corridor_st rf (Suc (Suc k))))"
proof -
  have l1: "leg_loop corridor (0, 1) (0, 0) 0 [] {} (corridor_st rf k)
              = Some (Inr (Suc 0, [(0, (0, 1))], {(0, (0, 1))}, corridor_st rf (Suc k)))"
    by (subst leg_loop_step[OF _ corridor_from_start]) simp_all
  have c2: "choose_next corridor (0, 1) (Suc 0) {(0, (0, 1))} (corridor_st rf (Suc k))
              = Inr ((0, 2), corridor_st rf (Suc (Suc k)))"
    using assms by (subst corridor_from_middle) simp_all
  have l2: "leg_loop corridor (0, 2) (0, 1) (Suc 0) [(0, (0, 1))] {(0, (0, 1))} (corridor_st rf (Suc k))
              = Some (Inr (Suc (Suc 0), [(0, (0, 1)), (Suc 0, (0, 2))], {(0, (0, 1)), (Suc 0, (0, 2))},
                           corridor_st rf (Suc (Suc k))))"
    by (subst leg_loop_step[OF _ c2]) auto
  show ?thesis by (simp add: build_route_single_def l1 l2)
qed

lemma route_walk:
  assumes "build_route_single self start mid endn ocupacion st = Some (Inr (ruta, ocupacion', st'))"
  shows "map fst ruta = [0..<length ruta] \<and>
         chain (G self) start (nodes_of ruta) \<and>
         (\<exists>k\<le>length ruta. (start # nodes_of ruta) ! k = mid \<and> (mid \<noteq> endn \<longrightarrow> k < length ruta) \<and>
              (0 < k \<longrightarrow> snd (ruta ! (k - 1)) = mid)) \<and>
         last (start # nodes_of ruta) = endn \<and>
         (ruta \<noteq> [] \<longrightarrow> snd (last ruta) = endn)"
proof -
  from build_route_single_result[OF assms] obtain leg1 leg2 where
    r: "ruta = leg1 @ leg2" and ts: "map fst ruta = [0..<length ruta]"
    and c1: "chain (G self) start (nodes_of leg1)" and e1: "last (start # nodes_of leg1) = mid"
    and c2: "chain (G self) mid (nodes_of leg2)" and e2: "last (mid # nodes_of leg2) = endn"
    by blast
  have nodes: "nodes_of ruta = nodes_of leg1 @ nodes_of leg2" by (simp add: r nodes_of_def)
  have ch: "chain (G self) start (nodes_of ruta)"
    unfolding nodes chain_append using c1 c2 e1 by simp
  have mid_at: "(start # nodes_of ruta) ! length leg1 = mid"
  proof -
    have "(start # nodes_of ruta) ! length leg1 = ((start # nodes_of leg1) @ nodes_of leg2) ! length leg1"
      by (simp add: nodes)
    also have "\<dots> = (start # nodes_of leg1) ! length leg1"
      by (subst nth_append) (simp add: nodes_of_def)
    also have "\<dots> = last (start # nodes_of leg1)"
      by (subst last_conv_nth) (simp_all add: nodes_of_def)
    finally show ?thesis using e1 by simp
  qed
  have end_at: "last (start # nodes_of ruta) = endn"
  proof (cases "leg2 = []")
    case True
    then have l2: "nodes_of leg2 = []" by (simp add: nodes_of_def)
    have "nodes_of ruta = nodes_of leg1" and "mid = endn"
      using e2 by (simp_all add: nodes l2)
    then show ?thesis using e1 by simp
  next
    case False
    then have l2: "nodes_of leg2 \<noteq> []" by (simp add: nodes_of_def)
    then have "last (start # nodes_of ruta) = last (nodes_of leg2)"
      by (simp add: nodes)
    also have "\<dots> = endn" using e2 l2 by simp
    finally show ?thesis .
  qed
  have strict: "mid \<noteq> endn \<longrightarrow> length leg1 < length ruta"
    using e2 by (cases leg2) (auto simp: r nodes_of_def)
  have rec: "0 < length leg1 \<longrightarrow> snd (ruta ! (length leg1 - 1)) = mid"
  proof
    assume p: "0 < length leg1"
    then have lt: "length leg1 - 1 < length ruta" by (cases leg1) (simp_all add: r)
    have "snd (ruta ! (length leg1 - 1)) = nodes_of ruta ! (length leg1 - 1)"
      unfolding nodes_of_def by (rule nth_map[OF lt, symmetric])
    also have "\<dots> = (start # nodes_of ruta) ! length leg1" using p by (cases "length leg1") simp_all
    finally show "snd (ruta ! (length leg1 - 1)) = mid" using mid_at by simp
  qed
  have lastr: "ruta \<noteq> [] \<longrightarrow> snd (last ruta) = endn"
    using end_at by (auto simp: nodes_of_def last_map)
  have "length leg1 \<le> length ruta" by (simp add: r)
  with ts ch mid_at strict rec end_at lastr show ?thesis by blast
qed

lemma choose_next_single:
  assumes "map_of (G self) u = Some [v]" and "weights_ok self (pheromone st) u [v]"
  shows "choose_next self u t ocupacion st =
           Inr (v, st\<lparr>pheromone := touch (pheromone st) u [v], rand_calls := Suc (rand_calls st)\<rparr>)"
proof -
  have ne: "[v] \<noteq> []" by simp
  show ?thesis
    unfolding choose_next_closed[OF assms(1) ne assms(2)] spec_choice_single by (rule refl)
qed

lemma trap_init:
  "init_pheromone (G trap) = Map.empty(((0, 0), (0, 1)) \<mapsto> tau0, ((0, 1), (0, 0)) \<mapsto> tau0)"
  by (simp add: init_pheromone_def trap_def neighbours_def)

lemma trap_step:
  assumes "pheromone st = init_pheromone (G trap)" and "cur = (0, 0) \<or> cur = (0, 1)"
  shows "\<exists>nxt st'. choose_next trap cur t ocupacion st = Inr (nxt, st') \<and>
           pheromone st' = init_pheromone (G trap) \<and> (nxt = (0, 0) \<or> nxt = (0, 1))"
proof -
  have ok: "weights_ok trap (pheromone st) u vs" for u vs
    by (rule weights_okI) (simp_all add: assms(1) init_pheromone_pos, simp_all add: trap_def)
  from assms(2) show ?thesis
  proof
    assume c: "cur = (0, 0)"
    have g: "map_of (G trap) (0, 0) = Some [(0, 1)]" by (simp add: trap_def)
    have tp: "touch (init_pheromone (G trap)) (0, 0) [(0, 1)] = init_pheromone (G trap)"
      by (rule touch_present) (auto simp: trap_init)
    show ?thesis
      unfolding c choose_next_single[OF g ok] by (simp add: assms(1) tp)
  next
    assume c: "cur = (0, 1)"
    have g: "map_of (G trap) (0, 1) = Some [(0, 0)]" by (simp add: trap_def)
    have tp: "touch (init_pheromone (G trap)) (0, 1) [(0, 0)] = init_pheromone (G trap)"
      by (rule touch_present) (auto simp: trap_init)
    show ?thesis
      unfolding c choose_next_single[OF g ok] by (simp add: assms(1) tp)
  qed
qed

lemma trap_never_returns:
  assumes "leg_loop self target cur t ruta ocupacion st = Some y"
  shows "\<not> (self = trap \<and> target = (0, 3) \<and> pheromone st = init_pheromone (G trap) \<and>
            (cur = (0, 0) \<or> cur = (0, 1)))"
proof (rule leg_loop.raw_induct[where P = "\<lambda>self target cur t ruta ocupacion st y.
    \<not> (self = trap \<and> target = (0, 3) \<and> pheromone st = init_pheromone (G trap) \<and>
            (cur = (0, 0) \<or> cur = (0, 1)))", OF _ assms], goal_cases)
  case (1 loop self target cur t ruta ocupacion st y)
  show ?case
  proof
    assume a: "self = trap \<and> target = (0, 3) \<and> pheromone st = init_pheromone (G trap) \<and>
            (cur = (0, 0) \<or> cur = (0, 1))"
    then have ne: "cur \<noteq> target" by auto
    from a trap_step[of st cur t ocupacion] obtain nxt st' where
      c: "choose_next trap cur t ocupacion st = Inr (nxt, st')"
      and p: "pheromone st' = init_pheromone (G trap)" and n: "nxt = (0, 0) \<or> nxt = (0, 1)"
      by blast
    from 1(2) ne a c
    have "loop trap (0, 3) nxt (Suc t) (ruta @ [(t, nxt)]) (insert (t, nxt) ocupacion) st' = Some y"
      by simp
    from 1(1)[OF this] p n show False by simp
  qed
qed

section \<open>Which parameters each method reads\<close>

lemma same_walk_sym: "same_walk p q \<Longrightarrow> same_walk q p"
  by (simp add: same_walk_def)

lemma dist_aco_cong: "same_walk p q \<Longrightarrow> dist_aco p a b = dist_aco q a b"
  by (simp add: same_walk_def dist_aco_def)

lemma weights_loop_cong:
  assumes "same_walk p q"
  shows "weights_loop p u t ocupacion vs probs tot ph = weights_loop q u t ocupacion vs probs tot ph"
proof (induction vs arbitrary: probs tot ph)
  case Nil
  show ?case by simp
next
  case (Cons v vs)
  have d: "dist_aco p u v = dist_aco q u v" by (rule dist_aco_cong[OF assms])
  have a: "alpha p = alpha q" "beta p = beta q" using assms by (simp_all add: same_walk_def)
  show ?case
    by (simp add: d a Cons.IH Let_def split: prod.splits sum.splits)
qed

lemma choose_next_cong:
  assumes "same_walk p q"
  shows "choose_next p u t ocupacion st = choose_next q u t ocupacion st"
proof -
  have g: "G p = G q" using assms by (simp add: same_walk_def)
  show ?thesis
    unfolding choose_next_def g weights_loop_cong[OF assms] by (rule refl)
qed

lemma leg_loop_cong_Some:
  assumes "leg_loop self target cur t ruta ocupacion st = Some y"
  shows "\<forall>q. same_walk self q \<longrightarrow> leg_loop q target cur t ruta ocupacion st = Some y"
proof (rule leg_loop.raw_induct[where P = "\<lambda>self target cur t ruta ocupacion st y.
    \<forall>q. same_walk self q \<longrightarrow> leg_loop q target cur t ruta ocupacion st = Some y", OF _ assms],
    goal_cases)
  case (1 loop self target cur t ruta ocupacion st y)
  show ?case
  proof (intro allI impI)
    fix q assume sw: "same_walk self q"
    note cn = choose_next_cong[OF sw, of cur t ocupacion st]
    show "leg_loop q target cur t ruta ocupacion st = Some y"
    proof (cases "cur = target")
      case True
      with 1(2) show ?thesis by simp
    next
      case False
      show ?thesis
      proof (cases "choose_next self cur t ocupacion st")
        case (Inl e)
        with False 1(2) have "y = Inl e" by simp
        then show ?thesis using leg_loop_error[OF False Inl[unfolded cn]] by simp
      next
        case (Inr pr)
        obtain nxt st1 where pr: "pr = (nxt, st1)" by (cases pr)
        from False Inr pr 1(2)
        have "loop self target nxt (Suc t) (ruta @ [(t, nxt)]) (insert (t, nxt) ocupacion) st1 = Some y"
          by simp
        from 1(1)[OF this] sw
        have "leg_loop q target nxt (Suc t) (ruta @ [(t, nxt)]) (insert (t, nxt) ocupacion) st1 = Some y"
          by blast
        then show ?thesis
          using leg_loop_step[OF False Inr[unfolded cn pr]] by simp
      qed
    qed
  qed
qed

lemma leg_loop_cong:
  assumes "same_walk p q"
  shows "leg_loop p target cur t ruta ocupacion st = leg_loop q target cur t ruta ocupacion st"
proof (cases "leg_loop p target cur t ruta ocupacion st")
  case (Some y)
  with leg_loop_cong_Some[OF Some] assms show ?thesis by simp
next
  case None
  show ?thesis
  proof (cases "leg_loop q target cur t ruta ocupacion st")
    case n: None
    with None show ?thesis by simp
  next
    case (Some y)
    with leg_loop_cong_Some[OF Some] same_walk_sym[OF assms] None show ?thesis by simp
  qed
qed

lemma build_route_single_cong:
  assumes "same_walk p q"
  shows "build_route_single p start mid endn ocupacion st
           = build_route_single q start mid endn ocupacion st"
  unfolding build_route_single_def leg_loop_cong[OF assms] by (rule refl)

lemma agents_loop_cong:
  assumes "same_plan p q"
  shows "agents_loop p idx rutas ocupacion st = agents_loop q idx rutas ocupacion st"
proof (induction idx arbitrary: rutas ocupacion st)
  case Nil
  show ?case by simp
next
  case (Cons i idx)
  have sw: "same_walk p q" and f: "starts p = starts q" "pickups p = pickups q" "drops p = drops q"
    using assms by (simp_all add: same_plan_def)
  show ?case
    by (simp add: f build_route_single_cong[OF sw] Cons.IH split: sum.splits option.splits prod.splits)
qed

lemma build_solution_multi_cong:
  assumes "same_plan p q"
  shows "build_solution_multi p st = build_solution_multi q st"
proof -
  have "num_agents p = num_agents q" using assms by (simp add: same_plan_def num_agents_def)
  then show ?thesis
    unfolding build_solution_multi_def agents_loop_cong[OF assms] by simp
qed

lemma score_solution_cong:
  assumes "same_plan p q"
  shows "score_solution p rutas = score_solution q rutas"
proof -
  have sw: "same_walk p q" and f: "w_conf p = w_conf q" "detect_conflicts p = detect_conflicts q"
    using assms by (simp_all add: same_plan_def)
  have "dist_aco p = dist_aco q" by (intro ext) (rule dist_aco_cong[OF sw])
  then have "total_dist_of p rutas = total_dist_of q rutas"
    unfolding total_dist_of_def by simp
  then show ?thesis by (simp add: score_solution_closed f)
qed

lemma ants_loop_cong:
  assumes "same_plan p q"
  shows "ants_loop p n candidatos st = ants_loop q n candidatos st"
proof (induction n arbitrary: candidatos st)
  case 0
  show ?case by simp
next
  case (Suc n)
  show ?case
    by (simp add: build_solution_multi_cong[OF assms] score_solution_cong[OF assms] Suc.IH
        split: option.splits sum.splits prod.splits)
qed

lemma iteration_cong:
  assumes "same_run p q"
  shows "iteration p best st = iteration q best st"
proof -
  have sp: "same_plan p q" and f: "rho p = rho q" "Q p = Q q" "num_ants p = num_ants q"
    using assms by (simp_all add: same_run_def)
  have e: "evaporate p = evaporate q" unfolding evaporate_def f by (rule refl)
  have r: "reinforce p = reinforce q" unfolding reinforce_def f by (rule refl)
  show ?thesis
    unfolding iteration_def ants_loop_cong[OF sp] e r f by (rule refl)
qed

lemma iter_loop_cong:
  assumes "same_run p q"
  shows "iter_loop p n best st = iter_loop q n best st"
  by (induction n arbitrary: best st)
     (simp_all add: iteration_cong[OF assms] split: option.splits sum.splits prod.splits)

lemma run_cong:
  assumes "same_run p q"
  shows "run p st = run q st"
proof -
  have "iterations p = iterations q" using assms by (simp add: same_run_def)
  then show ?thesis unfolding run_def iter_loop_cong[OF assms] by simp
qed

section \<open>The optimisation loop on the corridor\<close>

lemma corridor_route0_alt: "corridor_route0 = [(0, (0, 1)), (Suc 0, (0, 2))]"
  by (simp add: corridor_route0_def)

lemma corridor_solution:
  assumes "same_plan c corridor" and "1 / 2 < rf (Suc k)"
  shows "build_solution_multi c (corridor_st rf k)
           = Some (Inr ([corridor_route0], corridor_st rf (Suc (Suc k))))"
proof -
  have "build_solution_multi corridor (corridor_st rf k)
           = Some (Inr ([corridor_route0], corridor_st rf (Suc (Suc k))))"
    by (simp add: build_solution_multi_def num_agents_def corridor_def[THEN arg_cong, of starts]
                  corridor_def[THEN arg_cong, of pickups] corridor_def[THEN arg_cong, of drops]
                  nth_err_def corridor_route[where rf = rf and k = k, OF assms(2)] corridor_route0_alt)
  then show ?thesis by (simp add: build_solution_multi_cong[OF assms(1)])
qed

lemma corridor_score:
  assumes "same_plan c corridor"
  shows "score_solution c [corridor_route0] = (1, 1, 0)"
proof -
  have "score_solution corridor [corridor_route0] = (1, 1, 0)"
    by (simp add: score_solution_closed total_dist_of_def traversed_def steps_def nodes_of_def
                  corridor_route0_def dist_aco_def corridor_def)
  then show ?thesis by (simp add: score_solution_cong[OF assms])
qed

lemma corridor_ants:
  assumes "same_plan c corridor" and "1 / 2 < rf (Suc k)"
  shows "ants_loop c (Suc 0) [] (corridor_st rf k)
           = Some (Inr ([(1, [corridor_route0])], corridor_st rf (Suc (Suc k))))"
  by (simp add: corridor_solution[where rf = rf and k = k, OF assms] corridor_score[OF assms(1)])

lemma corridor_iteration:
  assumes "same_plan c corridor" and "num_ants c = 1" and "1 / 2 < rf (Suc k)"
  shows "\<exists>ph'. reinforce c [corridor_route0] 1 (evaporate c (init_pheromone (G corridor))) = Inr ph' \<and>
           iteration c best (corridor_st rf k)
             = Some (Inr (improve best (1, [corridor_route0]),
                          (corridor_st rf (Suc (Suc k)))\<lparr>pheromone := ph'\<rparr>))"
proof -
  have n: "nat (num_ants c) = Suc 0" using assms(2) by simp
  have "(1::real) + eps \<noteq> 0" using eps_pos by simp
  then obtain ph' where
    r: "reinforce c [corridor_route0] 1 (evaporate c (init_pheromone (G corridor))) = Inr ph'"
    by (simp add: reinforce_def Let_def)
  have "iteration c best (corridor_st rf k)
             = Some (Inr (improve best (1, [corridor_route0]),
                          (corridor_st rf (Suc (Suc k)))\<lparr>pheromone := ph'\<rparr>))"
    unfolding iteration_def n corridor_ants[where rf = rf and k = k, OF assms(1,3)]
    by (simp add: r)
  with r show ?thesis by blast
qed

lemma corridor_run:
  assumes "same_plan c corridor" and "num_ants c = 1" and "iterations c = 1" and "1 / 2 < rf (Suc k)"
  shows "map_option (map_sum id fst) (run c (corridor_st rf k))
           = Some (Inr (Some ([corridor_route0], 1)))"
proof -
  from corridor_iteration[where rf = rf and k = k and best = None, OF assms(1,2,4)] obtain ph' where
    "iteration c None (corridor_st rf k)
       = Some (Inr (improve None (1, [corridor_route0]),
                    (corridor_st rf (Suc (Suc k)))\<lparr>pheromone := ph'\<rparr>))"
    by blast
  then show ?thesis
    by (simp add: run_def assms(3) improve_def)
qed

lemma run_no_iterations:
  assumes "iterations self \<le> 0"
  shows "run self st = Some (Inr (None, st))"
  using assms by (simp add: run_def)

lemma run_no_ants:
  assumes "0 < iterations self" and "num_ants self \<le> 0"
  shows "run self st = Some (Inl IndexError)"
proof -
  from assms(1) obtain n where n: "nat (iterations self) = Suc n"
    by (cases "nat (iterations self)") auto
  have "iteration self None st = Some (Inl IndexError)"
    using assms(2) by (simp add: iteration_def)
  then show ?thesis by (simp add: run_def n)
qed

section \<open>The iteration-best and the incumbent\<close>

lemma find_append_first: "find P xs = Some x \<Longrightarrow> find P (xs @ ys) = Some x"
  by (induction xs) (auto split: if_splits)

lemma find_append_none: "(\<And>x. x \<in> set xs \<Longrightarrow> \<not> P x) \<Longrightarrow> find P (xs @ ys) = find P ys"
  by (induction xs) auto

lemma fold_better_lowest:
  "fst (fold better cs c) = lowest (c # cs) \<and>
   first_lowest (c # cs) = Some (fold better cs c)"
proof (induction cs rule: rev_induct)
  case Nil
  show ?case by (simp add: lowest_def first_lowest_def)
next
  case (snoc d cs)
  let ?m = "fold better cs c"
  have m: "fst ?m = lowest (c # cs)" and f: "first_lowest (c # cs) = Some ?m"
    using snoc.IH by simp_all
  have low: "lowest (c # cs @ [d]) = min (fst d) (lowest (c # cs))"
  proof -
    have "fst ` set (c # cs @ [d]) = insert (fst d) (fst ` set (c # cs))" by auto
    then show ?thesis unfolding lowest_def by (simp del: set_simps set_append)
  qed
  have ge: "lowest (c # cs) \<le> fst x" if "x \<in> set (c # cs)" for x
    unfolding lowest_def using that by (intro Min_le) auto
  show ?case
  proof (cases "fst d < fst ?m")
    case True
    then have l: "lowest (c # cs @ [d]) = fst d" using low m by simp
    have none: "\<not> fst x = fst d" if "x \<in> set (c # cs)" for x
      using ge[OF that] True m by simp
    have "find (\<lambda>e. fst e = fst d) ((c # cs) @ [d]) = find (\<lambda>e. fst e = fst d) [d]"
      by (rule find_append_none) (rule none)
    then have "first_lowest (c # cs @ [d]) = Some d"
      by (simp add: first_lowest_def l del: find.simps(2)) simp
    moreover have "fold better (cs @ [d]) c = d" using True by (simp add: better_def[of d])
    ultimately show ?thesis using l by simp
  next
    case False
    then have l: "lowest (c # cs @ [d]) = lowest (c # cs)" using low m by simp
    have "find (\<lambda>e. fst e = lowest (c # cs)) ((c # cs) @ [d]) = Some ?m"
      by (rule find_append_first) (use f in \<open>simp add: first_lowest_def\<close>)
    then have "first_lowest (c # cs @ [d]) = Some ?m"
      by (simp add: first_lowest_def l)
    moreover have "fold better (cs @ [d]) c = ?m" using False by (simp add: better_def[of d])
    ultimately show ?thesis using l m by simp
  qed
qed

lemma better_assoc: "better a (better y acc) = better (better a y) acc"
  by (auto simp: better_def)

lemma fold_better_acc: "fold better (y # ys) acc = better (fold better ys y) acc"
proof (induction ys arbitrary: y acc)
  case Nil
  show ?case by simp
next
  case (Cons z zs)
  have "fold better (y # z # zs) acc = fold better (z # zs) (better y acc)" by simp
  also have "\<dots> = better (fold better zs z) (better y acc)" by (rule Cons.IH)
  also have "\<dots> = better (better (fold better zs z) y) acc" by (rule better_assoc)
  also have "\<dots> = better (fold better (z # zs) y) acc" by (simp only: Cons.IH)
  finally show ?case .
qed

lemma track_Some: "track (Some c) cs = Some (fold better cs c)"
  unfolding track_def by (induction cs arbitrary: c) simp_all

lemma track_None: "track None cs = first_lowest cs"
proof (cases cs)
  case Nil
  then show ?thesis by (simp add: track_def first_lowest_def)
next
  case (Cons c cs')
  have "track None (c # cs') = track (Some c) cs'" by (simp add: track_def)
  then show ?thesis using fold_better_lowest[where c = c and cs = cs'] by (simp add: Cons track_Some)
qed

lemma track_append: "track b (xs @ ys) = track (track b xs) ys"
  by (simp add: track_def)

lemma track_block:
  assumes "first_lowest cs = Some c"
  shows "track b cs = Some (case b of None \<Rightarrow> c | Some c0 \<Rightarrow> better c c0)"
proof -
  from assms obtain x xs where cs: "cs = x # xs"
    by (cases cs) (simp_all add: first_lowest_def)
  have c: "c = fold better xs x" using assms fold_better_lowest[where c = x and cs = xs] by (simp add: cs)
  show ?thesis
  proof (cases b)
    case None
    then show ?thesis using assms by (simp add: track_None)
  next
    case (Some c0)
    have "track (Some c0) (x # xs) = Some (fold better (x # xs) c0)" by (rule track_Some)
    also have "\<dots> = Some (better (fold better xs x) c0)" by (simp only: fold_better_acc)
    finally show ?thesis by (simp add: Some cs c)
  qed
qed

lemma filter_find: "filter P xs = y # ys \<Longrightarrow> find P xs = Some y"
  by (induction xs) (auto split: if_splits)

lemma sort_key_head:
  assumes "sort_key fst cs = c # rest"
  shows "first_lowest cs = Some c"
proof -
  have set: "set cs = set (c # rest)" using assms by (metis set_sort)
  have srt: "sorted (map fst (c # rest))" using assms by (metis sorted_sort_key)
  have cin: "c \<in> set cs" using set by simp
  have le: "fst c \<le> fst d" if "d \<in> set cs" for d
    using that set srt by auto
  have low: "lowest cs = fst c"
    unfolding lowest_def
  proof (rule Min_eqI)
    show "finite (fst ` set cs)" by simp
    show "fst c \<le> y" if "y \<in> fst ` set cs" for y using that le by auto
    show "fst c \<in> fst ` set cs" using cin by simp
  qed
  have "filter (\<lambda>y. fst y = fst c) cs = filter (\<lambda>y. fst y = fst c) (sort_key fst cs)"
    by (rule sort_key_stable[symmetric])
  also have "\<dots> = c # filter (\<lambda>y. fst y = fst c) rest" by (simp add: assms)
  finally show ?thesis unfolding first_lowest_def low by (rule filter_find)
qed

lemma ants_loop_length:
  "ants_loop self n candidatos st = Some (Inr (candidatos', st')) \<Longrightarrow>
     length candidatos' = length candidatos + n"
proof (induction n arbitrary: candidatos st)
  case 0
  then show ?case by simp
next
  case (Suc n)
  from Suc.prems obtain rutas st1 where
    b: "build_solution_multi self st = Some (Inr (rutas, st1))"
    by (auto split: option.splits sum.splits)
  with Suc.prems have
    "ants_loop self n (candidatos @ [(fst (score_solution self rutas), rutas)]) st1
       = Some (Inr (candidatos', st'))"
    by (simp split: prod.splits)
  from Suc.IH[OF this] show ?case by simp
qed

lemma iteration_result:
  assumes "iteration self best st = Some (Inr (best', st'))"
  shows "\<exists>candidatos st1 c.
           ants_loop self (nat (num_ants self)) [] st = Some (Inr (candidatos, st1)) \<and>
           first_lowest candidatos = Some c \<and>
           reinforce self (snd c) (fst c) (evaporate self (pheromone st1)) = Inr (pheromone st') \<and>
           st' = st1\<lparr>pheromone := pheromone st'\<rparr> \<and>
           best' = improve best c \<and>
           (\<forall>b. iteration self b st = Some (Inr (improve b c, st')))"
proof -
  from assms obtain candidatos st1 where
    a: "ants_loop self (nat (num_ants self)) [] st = Some (Inr (candidatos, st1))"
    by (auto simp: iteration_def split: option.splits sum.splits)
  with assms obtain c rest where s: "sort_key fst candidatos = c # rest"
    by (cases "sort_key fst candidatos") (auto simp: iteration_def)
  obtain sb rb where c: "c = (sb, rb)" by (cases c)
  from assms a s c obtain ph' where
    r: "reinforce self rb sb (evaporate self (pheromone st1)) = Inr ph'"
    by (cases "reinforce self rb sb (evaporate self (pheromone st1))") (auto simp: iteration_def)
  from assms a s c r have e: "best' = improve best c" "st' = st1\<lparr>pheromone := ph'\<rparr>"
    by (simp_all add: iteration_def)
  have p: "pheromone st' = ph'" using e(2) by simp
  have "\<forall>b. iteration self b st = Some (Inr (improve b c, st'))"
    using a s c r e(2) by (simp add: iteration_def)
  with a sort_key_head[OF s] r e p c show ?thesis by auto
qed

lemma as_candidate_improve:
  "as_candidate (improve best c) = Some (case as_candidate best of None \<Rightarrow> c | Some c0 \<Rightarrow> better c c0)"
  by (cases best) (auto simp: as_candidate_def improve_def better_def split: prod.splits)

lemma iter_loop_track:
  "iter_loop self n best st = Some (Inr (best', st')) \<Longrightarrow>
   \<exists>css. run_candidates self n st = Some css \<and> length css = n \<and>
         (\<forall>cs\<in>set css. length cs = nat (num_ants self)) \<and>
         as_candidate best' = track (as_candidate best) (concat css)"
proof (induction n arbitrary: best st)
  case 0
  then show ?case by (simp add: track_def)
next
  case (Suc n)
  from Suc.prems obtain b1 st1 where
    it: "iteration self best st = Some (Inr (b1, st1))"
    and rest: "iter_loop self n b1 st1 = Some (Inr (best', st'))"
    by (auto split: option.splits sum.splits)
  from iteration_result[OF it] obtain cands sta c where
    a: "ants_loop self (nat (num_ants self)) [] st = Some (Inr (cands, sta))"
    and f: "first_lowest cands = Some c"
    and b1: "b1 = improve best c"
    and any: "\<forall>b. iteration self b st = Some (Inr (improve b c, st1))"
    by blast
  from Suc.IH[OF rest] obtain css where
    rc: "run_candidates self n st1 = Some css" and len: "length css = n"
    and each: "\<forall>cs\<in>set css. length cs = nat (num_ants self)"
    and tr: "as_candidate best' = track (as_candidate b1) (concat css)"
    by blast
  have n: "length cands = nat (num_ants self)" using ants_loop_length[OF a] by simp
  have blk: "as_candidate b1 = track (as_candidate best) cands"
    unfolding b1 as_candidate_improve track_block[OF f] by (rule refl)
  have "run_candidates self (Suc n) st = Some (cands # css)"
    using a any rc by simp
  moreover have "as_candidate best' = track (as_candidate best) (concat (cands # css))"
    using tr blk by (simp add: track_append)
  ultimately show ?case using len each n by (intro exI[of _ "cands # css"]) simp
qed

lemma first_lowest_score:
  assumes "first_lowest cs = Some c"
  shows "fst c = lowest cs"
  using assms unfolding first_lowest_def by (auto simp: find_Some_iff)

lemma first_lowest_nonempty: "cs \<noteq> [] \<Longrightarrow> \<exists>c. first_lowest cs = Some c"
  by (cases cs) (simp_all add: fold_better_lowest)

lemma single_run:
  assumes "num_ants self = 1" and "iterations self = 1"
    and "run self st = Some (Inr (best, st'))"
  shows "\<exists>rutas st1. build_solution_multi self st = Some (Inr (rutas, st1)) \<and>
           best = Some (rutas, fst (score_solution self rutas))"
proof -
  from assms(2,3) have it: "iteration self None st = Some (Inr (best, st'))"
    by (auto simp: run_def split: option.splits sum.splits)
  from iteration_result[OF it] obtain cands sta c where
    a: "ants_loop self (Suc 0) [] st = Some (Inr (cands, sta))"
    and f: "first_lowest cands = Some c" and b: "best = improve None c"
    by (auto simp: assms(1))
  from a obtain rutas st1 where
    bs: "build_solution_multi self st = Some (Inr (rutas, st1))"
    by (auto split: option.splits sum.splits)
  with a have "cands = [(fst (score_solution self rutas), rutas)]"
    by (auto split: prod.splits)
  with f have "c = (fst (score_solution self rutas), rutas)"
    by (simp add: first_lowest_def lowest_def)
  with b bs show ?thesis by (simp add: improve_def)
qed

section \<open>The first move of a route\<close>

lemma steps_Cons2: "steps (a # b # xs) = (a, b) # steps (b # xs)"
  by (simp add: steps_def)

lemma traversed_single: "traversed [ruta] = steps (nodes_of ruta)"
  by (simp add: traversed_def)

lemma detour_walk:
  "build_route_single corridor (0, 0) (0, 2) (0, 2) {} (corridor_st detour_draws 0)
     = Some (Inr ([(0, (0, 1)), (Suc 0, (0, 0)), (Suc (Suc 0), (0, 1)), (Suc (Suc (Suc 0)), (0, 2))],
                  {(Suc (Suc (Suc 0)), (0, 2)), (Suc (Suc 0), (0, 1)), (Suc 0, (0, 0)), (0, (0, 1))},
                  corridor_st detour_draws (Suc (Suc (Suc (Suc 0))))))"
proof -
  let ?rf = detour_draws
  let ?T = "(0, 2) :: node"
  let ?R1 = "[] @ [(0, (0 :: int, 1 :: int))]"
  let ?O1 = "insert (0, (0 :: int, 1 :: int)) {}"
  let ?R2 = "?R1 @ [(Suc 0, (0, 0))]"
  let ?O2 = "insert (Suc 0, (0, 0)) ?O1"
  let ?R3 = "?R2 @ [(Suc (Suc 0), (0, 1))]"
  let ?O3 = "insert (Suc (Suc 0), (0, 1)) ?O2"
  let ?R4 = "?R3 @ [(Suc (Suc (Suc 0)), (0, 2))]"
  let ?O4 = "insert (Suc (Suc (Suc 0)), (0, 2)) ?O3"
  have c1: "choose_next corridor (0, 1) (Suc 0) ?O1 (corridor_st ?rf (Suc 0))
              = Inr ((0, 0), corridor_st ?rf (Suc (Suc 0)))"
    by (subst corridor_from_middle) (simp_all add: detour_draws_def)
  have c3: "choose_next corridor (0, 1) (Suc (Suc (Suc 0))) ?O3 (corridor_st ?rf (Suc (Suc (Suc 0))))
              = Inr ((0, 2), corridor_st ?rf (Suc (Suc (Suc (Suc 0)))))"
    by (subst corridor_from_middle) (simp_all add: detour_draws_def)
  have "leg_loop corridor ?T (0, 0) 0 [] {} (corridor_st ?rf 0)
          = leg_loop corridor ?T (0, 1) (Suc 0) ?R1 ?O1 (corridor_st ?rf (Suc 0))"
    by (rule leg_loop_step[OF _ corridor_from_start]) simp
  also have "\<dots> = leg_loop corridor ?T (0, 0) (Suc (Suc 0)) ?R2 ?O2 (corridor_st ?rf (Suc (Suc 0)))"
    by (rule leg_loop_step[OF _ c1]) simp
  also have "\<dots> = leg_loop corridor ?T (0, 1) (Suc (Suc (Suc 0))) ?R3 ?O3
                      (corridor_st ?rf (Suc (Suc (Suc 0))))"
    by (rule leg_loop_step[OF _ corridor_from_start]) simp
  also have "\<dots> = leg_loop corridor ?T (0, 2) (Suc (Suc (Suc (Suc 0)))) ?R4 ?O4
                      (corridor_st ?rf (Suc (Suc (Suc (Suc 0)))))"
    by (rule leg_loop_step[OF _ c3]) simp
  also have "\<dots> = Some (Inr (Suc (Suc (Suc (Suc 0))), ?R4, ?O4,
                             corridor_st ?rf (Suc (Suc (Suc (Suc 0))))))"
    by (rule leg_loop_done)
  finally have l: "leg_loop corridor ?T (0, 0) 0 [] {} (corridor_st ?rf 0)
     = Some (Inr (Suc (Suc (Suc (Suc 0))), ?R4, ?O4, corridor_st ?rf (Suc (Suc (Suc (Suc 0))))))" .
  show ?thesis unfolding build_route_single_def l by simp
qed

lemma detour_route_alt:
  "detour_route = [(0, (0, 1)), (Suc 0, (0, 0)), (Suc (Suc 0), (0, 1)), (Suc (Suc (Suc 0)), (0, 2))]"
  by (simp add: detour_route_def numeral_2_eq_2 numeral_3_eq_3)

lemma nodes_of_Cons: "nodes_of (p # ps) = snd p # nodes_of ps"
  by (simp add: nodes_of_def)

lemma first_step_split:
  assumes "ruta \<noteq> []"
  shows "steps (start # nodes_of ruta) = (start, snd (hd ruta)) # steps (nodes_of ruta)"
proof -
  from assms obtain p ps where "ruta = p # ps" by (cases ruta) auto
  then show ?thesis by (simp add: nodes_of_Cons steps_Cons2)
qed

section \<open>Claim C1: no step bound and no "no route" signal\<close>

text \<open>
  \<open>build_route_single\<close> has no bound on the number of steps of a leg. On the graph of
  \<open>trap\<close>, where the cells \<open>(0,0)\<close> and \<open>(0,1)\<close> only lead to each other, a leg towards the
  isolated cell \<open>(0,3)\<close> never returns, whatever the draws are: it neither completes a
  route nor raises.
\<close>

theorem unreachable_target_counterexample:
  "build_route_single trap (0, 0) (0, 3) (0, 3) {} trap_state = None"
proof -
  have "leg_loop trap (0, 3) (0, 0) 0 [] {} trap_state = None"
  proof (cases "leg_loop trap (0, 3) (0, 0) 0 [] {} trap_state")
    case None
    then show ?thesis .
  next
    case (Some y)
    from trap_never_returns[OF Some] show ?thesis
      by (simp add: trap_state_def init_state_def)
  qed
  then show ?thesis by (simp add: build_route_single_def)
qed

text \<open>
  Claim C1, as the code has it. When the start has an empty neighbour list, planning raises
  \<open>IndexError\<close> (from \<open>random.choice\<close> on the empty list), which is not a route and not a
  hang; only when start, pickup and drop are the same cell does it return the empty route.
  And a route is returned only when the walk has passed the pickup and ended on the drop.
\<close>

theorem isolated_start_raises:
  "(map_of (G self) start = Some [] \<longrightarrow>
      build_route_single self start mid endn ocupacion st =
        (if start = mid \<and> mid = endn then Some (Inr ([], ocupacion, st))
         else Some (Inl IndexError))) \<and>
   (\<forall>ruta ocupacion' st'.
      build_route_single self start mid endn ocupacion st = Some (Inr (ruta, ocupacion', st')) \<longrightarrow>
        (\<exists>k\<le>length ruta. (start # nodes_of ruta) ! k = mid) \<and> last (start # nodes_of ruta) = endn)"
proof (intro conjI impI allI)
  assume iso: "map_of (G self) start = Some []"
  show "build_route_single self start mid endn ocupacion st =
        (if start = mid \<and> mid = endn then Some (Inr ([], ocupacion, st))
         else Some (Inl IndexError))"
  proof (cases "start = mid")
    case True
    show ?thesis
    proof (cases "mid = endn")
      case e: True
      with True show ?thesis by (simp add: build_route_single_def)
    next
      case e: False
      have "leg_loop self endn mid 0 [] ocupacion st = Some (Inl IndexError)"
        by (rule leg_loop_error[OF e]) (simp add: True[symmetric] choose_next_isolated[OF iso])
      with True e show ?thesis by (simp add: build_route_single_def)
    qed
  next
    case False
    have "leg_loop self mid start 0 [] ocupacion st = Some (Inl IndexError)"
      by (rule leg_loop_error[OF False choose_next_isolated[OF iso]])
    with False show ?thesis by (simp add: build_route_single_def)
  qed
next
  fix ruta ocupacion' st'
  assume r: "build_route_single self start mid endn ocupacion st = Some (Inr (ruta, ocupacion', st'))"
  from route_walk[OF r] show "\<exists>k\<le>length ruta. (start # nodes_of ruta) ! k = mid"
    by blast
  from route_walk[OF r] show "last (start # nodes_of ruta) = endn"
    by blast
qed

theorem isolated_start_raises_witness:
  "map_of (G trap) (0, 3) = Some [] \<and>
   build_route_single trap (0, 3) (0, 0) (0, 0) {} trap_state = Some (Inl IndexError) \<and>
   build_route_single corridor (0, 0) (0, 1) (0, 2) {} (corridor_st high_draws 0)
     = Some (Inr ([(0, (0, 1)), (Suc 0, (0, 2))], {(0, (0, 1)), (Suc 0, (0, 2))},
                  corridor_st high_draws (Suc (Suc 0)))) \<and>
   last ((0, 0) # nodes_of [(0, (0, 1)), (Suc 0, (0, 2))]) = (0, 2)"
proof -
  have g: "map_of (G trap) (0, 3) = Some []" by (simp add: trap_def)
  have a: "build_route_single trap (0, 3) (0, 0) (0, 0) {} trap_state = Some (Inl IndexError)"
    using isolated_start_raises[of trap "(0, 3)" "(0, 0)" "(0, 0)" "{}" trap_state] g by simp
  have r: "build_route_single corridor (0, 0) (0, 1) (0, 2) {} (corridor_st high_draws 0)
     = Some (Inr ([(0, (0, 1)), (Suc 0, (0, 2))], {(0, (0, 1)), (Suc 0, (0, 2))},
                  corridor_st high_draws (Suc (Suc 0))))"
    by (rule corridor_route) (simp add: high_draws_def)
  have b: "last ((0, 0) # nodes_of [(0, (0, 1)), (Suc 0, (0, 2))]) = (0, 2)"
    using isolated_start_raises[of corridor "(0, 0)" "(0, 1)" "(0, 2)" "{}" "corridor_st high_draws 0"] r
    by blast
  from g a r b show ?thesis by blast
qed

section \<open>Claim C2: the weighted draw of \<open>choose_next\<close>\<close>




section \<open>Claim C3: the route invariant\<close>

text \<open>
  Claim C3. Whenever \<open>build_route_single\<close> returns a route: the recorded timesteps are
  \<open>0, 1, 2, \<dots>\<close> (contiguous, one more per step); the walk starts at the agent's start node,
  which is not recorded, and every recorded node is in the neighbour list of the node
  before it (\<open>chain\<close>, from the start); the pickup is reached at some position \<open>k\<close> of the
  walk and the drop at its end, with \<open>k\<close> strictly earlier when the two differ; and the
  last node a leg records is that leg's target.
\<close>

theorem route_invariant:
  assumes "build_route_single self start mid endn ocupacion st = Some (Inr (ruta, ocupacion', st'))"
  shows "map fst ruta = [0..<length ruta] \<and>
         chain (G self) start (nodes_of ruta) \<and>
         (\<exists>k\<le>length ruta. (start # nodes_of ruta) ! k = mid \<and> (mid \<noteq> endn \<longrightarrow> k < length ruta) \<and>
              (0 < k \<longrightarrow> snd (ruta ! (k - 1)) = mid)) \<and>
         last (start # nodes_of ruta) = endn \<and>
         (ruta \<noteq> [] \<longrightarrow> snd (last ruta) = endn)"
  using assms by (rule route_walk)

theorem route_invariant_witness:
  "build_route_single corridor (0, 0) (0, 1) (0, 2) {} (corridor_st high_draws 0)
     = Some (Inr ([(0, (0, 1)), (1, (0, 2))], {(0, (0, 1)), (1, (0, 2))}, corridor_st high_draws 2)) \<and>
   map fst [(0, (0, 1)), (1, (0 :: int, 2 :: int))] = [0..<2] \<and>
   chain (G corridor) (0, 0) [(0, 1), (0, 2)] \<and>
   last [(0, 0), (0, 1), (0 :: int, 2 :: int)] = (0, 2)"
proof -
  have r: "build_route_single corridor (0, 0) (0, 1) (0, 2) {} (corridor_st high_draws 0)
     = Some (Inr ([(0, (0, 1)), (1, (0, 2))], {(0, (0, 1)), (1, (0, 2))}, corridor_st high_draws 2))"
    using corridor_route[of high_draws 0] by (simp add: high_draws_def numeral_2_eq_2)
  from route_invariant[OF r] have
    "map fst [(0, (0, 1)), (1, (0 :: int, 2 :: int))] = [0..<length [(0 :: nat, (0 :: int, 1 :: int)), (1, (0, 2))]]"
    "chain (G corridor) (0, 0) (nodes_of [(0, (0, 1)), (1, (0, 2))])"
    "last ((0, 0) # nodes_of [(0, (0, 1)), (1, (0, 2))]) = (0, 2)"
    by blast+
  with r show ?thesis
    by (simp add: nodes_of_def numeral_2_eq_2 upt_conv_Cons)
qed

section \<open>Claim C4: the score of a solution\<close>

text \<open>
  Claim C4 at a concrete solution. The agent starts on \<open>(0,0)\<close> and its route records the
  moves to \<open>(0,1)\<close> and \<open>(0,2)\<close>: two moves of cost \<open>1\<close> each. \<open>score_solution\<close> returns the
  distance \<open>1\<close> and the score \<open>1\<close>, because it only pairs recorded nodes and the start is not
  recorded.
\<close>

theorem score_omits_first_move:
  "build_solution_multi corridor (corridor_st high_draws 0)
     = Some (Inr ([corridor_route0], corridor_st high_draws 2)) \<and>
   score_solution corridor [corridor_route0] = (1, 1, 0) \<and>
   walk_cost corridor (0, 0) corridor_route0 = 2"
proof -
  have sp: "same_plan corridor corridor" by (simp add: same_plan_def same_walk_def)
  have d: "1 / 2 < high_draws (Suc 0)" by (simp add: high_draws_def)
  have "walk_cost corridor (0, 0) corridor_route0 = 2"
    by (simp add: walk_cost_def steps_def nodes_of_def corridor_route0_def dist_aco_def corridor_def)
  then show ?thesis
    using corridor_solution[where rf = high_draws and k = 0, OF sp d] corridor_score[OF sp] by (simp add: numeral_2_eq_2)
qed

section \<open>Claim C5: evaporation, then reinforcement by the iteration-best\<close>



section \<open>Claim C6: what \<open>run\<close> returns\<close>

text \<open>
  Claim C6. A run that completes has gone through exactly \<open>iterations\<close> iterations of
  \<open>num_ants\<close> candidates each (\<open>run_candidates\<close> lists them, iteration by iteration). The
  incumbent it returns is the first of all these candidates that has the lowest score, which
  is what replacing only on strict improvement keeps; there is none when the run built no
  candidate. With one ant and one iteration it is the single solution built, with its score.
\<close>

theorem run_returns_first_lowest:
  assumes "run self st = Some (Inr (best, st'))"
  shows "\<exists>css. run_candidates self (nat (iterations self)) st = Some css \<and>
           length css = nat (iterations self) \<and>
           (\<forall>cs\<in>set css. length cs = nat (num_ants self)) \<and>
           as_candidate best = first_lowest (concat css) \<and>
           (concat css \<noteq> [] \<longrightarrow> (\<exists>rutas. best = Some (rutas, lowest (concat css)))) \<and>
           (num_ants self = 1 \<and> iterations self = 1 \<longrightarrow>
              (\<exists>rutas st1. build_solution_multi self st = Some (Inr (rutas, st1)) \<and>
                           best = Some (rutas, fst (score_solution self rutas))))"
proof -
  from iter_loop_track[OF assms[unfolded run_def]] obtain css where
    rc: "run_candidates self (nat (iterations self)) st = Some css"
    and len: "length css = nat (iterations self)"
    and each: "\<forall>cs\<in>set css. length cs = nat (num_ants self)"
    and tr: "as_candidate best = track (as_candidate None) (concat css)"
    by blast
  have fl: "as_candidate best = first_lowest (concat css)"
    using tr by (simp add: as_candidate_def track_None)
  have low: "concat css \<noteq> [] \<longrightarrow> (\<exists>rutas. best = Some (rutas, lowest (concat css)))"
  proof
    assume "concat css \<noteq> []"
    from first_lowest_nonempty[OF this] obtain c where c: "first_lowest (concat css) = Some c"
      by blast
    with fl obtain rutas score where b: "best = Some (rutas, score)" and cc: "c = (score, rutas)"
      by (cases best) (auto simp: as_candidate_def)
    from first_lowest_score[OF c] cc have "score = lowest (concat css)" by simp
    with b show "\<exists>rutas. best = Some (rutas, lowest (concat css))" by blast
  qed
  have one: "num_ants self = 1 \<and> iterations self = 1 \<longrightarrow>
              (\<exists>rutas st1. build_solution_multi self st = Some (Inr (rutas, st1)) \<and>
                           best = Some (rutas, fst (score_solution self rutas)))"
    using single_run[OF _ _ assms] by blast
  from rc len each fl low one show ?thesis by blast
qed

theorem run_returns_first_lowest_witness:
  "\<exists>st'. run corridor (corridor_st high_draws 0) = Some (Inr (Some ([corridor_route0], 1), st')) \<and>
         (\<exists>css. run_candidates corridor (nat (iterations corridor)) (corridor_st high_draws 0) = Some css \<and>
                length css = 1 \<and> first_lowest (concat css) = Some (1, [corridor_route0]))"
proof -
  have sp: "same_plan corridor corridor" by (simp add: same_plan_def same_walk_def)
  have na: "num_ants corridor = 1" and ni: "iterations corridor = 1" by (simp_all add: corridor_def)
  have d: "1 / 2 < high_draws (Suc 0)" by (simp add: high_draws_def)
  from corridor_iteration[where rf = high_draws and k = 0 and best = None, OF sp na d]
  obtain ph' where
    it: "iteration corridor None (corridor_st high_draws 0)
           = Some (Inr (improve None (1, [corridor_route0]),
                        (corridor_st high_draws (Suc (Suc 0)))\<lparr>pheromone := ph'\<rparr>))"
    by blast
  let ?st' = "(corridor_st high_draws (Suc (Suc 0)))\<lparr>pheromone := ph'\<rparr>"
  have r: "run corridor (corridor_st high_draws 0) = Some (Inr (Some ([corridor_route0], 1), ?st'))"
    using it by (simp add: run_def ni improve_def)
  from run_returns_first_lowest[OF r] obtain css where
    "run_candidates corridor (nat (iterations corridor)) (corridor_st high_draws 0) = Some css"
    "length css = nat (iterations corridor)"
    "as_candidate (Some ([corridor_route0], 1)) = first_lowest (concat css)"
    by blast
  then have "\<exists>css. run_candidates corridor (nat (iterations corridor)) (corridor_st high_draws 0) = Some css \<and>
                length css = 1 \<and> first_lowest (concat css) = Some (1, [corridor_route0])"
    by (intro exI[of _ css]) (simp add: ni as_candidate_def)
  with r show ?thesis by blast
qed

section \<open>Claim C7: trails stay strictly positive\<close>



section \<open>Claim C8: the configuration is not checked\<close>

text \<open>
  Claim C8 fails on the code: nothing in \<open>__init__\<close> or \<open>run\<close> checks the configuration.
  With \<open>rho = 0\<close> and \<open>Q = 0\<close> the run on the corridor executes its iteration and returns
  the constructed solution and its score.
\<close>

theorem nonpositive_rho_accepted_counterexample:
  "rho lax \<le> 0 \<and> Q lax \<le> 0 \<and>
   map_option (map_sum id fst) (run lax (init_state lax high_draws no_index))
     = Some (Inr (Some ([corridor_route0], 1)))"
proof -
  have sp: "same_plan lax corridor"
    by (simp add: lax_def same_plan_def same_walk_def)
  have f: "num_ants lax = 1" "iterations lax = 1" "rho lax \<le> 0" "Q lax \<le> 0"
    by (simp_all add: lax_def corridor_def)
  have st: "init_state lax high_draws no_index = corridor_st high_draws 0"
    by (simp add: init_state_def corridor_st_def lax_def)
  have d: "1 / 2 < high_draws (Suc 0)" by (simp add: high_draws_def)
  show ?thesis
    using corridor_run[where rf = high_draws and k = 0, OF sp f(1,2) d] f(3,4) by (simp add: st)
qed

text \<open>
  Claim C8, as the code has it. There is no configuration check. With a non-positive
  \<open>iterations\<close> the loop body never runs and \<open>run\<close> returns \<open>(None, inf)\<close> without an error;
  with a positive \<open>iterations\<close> and a non-positive \<open>num_ants\<close> the first iteration raises
  \<open>IndexError\<close> at \<open>candidatos[0]\<close>, inside the loop; \<open>rho\<close> and \<open>Q\<close> are not looked at
  before or while the ants of an iteration build and score their solutions.
\<close>

theorem no_configuration_check:
  "(iterations self \<le> 0 \<longrightarrow> run self st = Some (Inr (None, st))) \<and>
   (0 < iterations self \<and> num_ants self \<le> 0 \<longrightarrow> run self st = Some (Inl IndexError)) \<and>
   ants_loop (self\<lparr>rho := r, Q := q\<rparr>) n candidatos st = ants_loop self n candidatos st"
proof -
  have "same_plan (self\<lparr>rho := r, Q := q\<rparr>) self"
    by (simp add: same_plan_def same_walk_def)
  from ants_loop_cong[OF this] run_no_iterations[of self st] run_no_ants[of self st]
  show ?thesis by blast
qed

theorem no_configuration_check_witness:
  "iterations no_iterations \<le> 0 \<and>
   run no_iterations (corridor_st high_draws 0) = Some (Inr (None, corridor_st high_draws 0)) \<and>
   0 < iterations no_ants \<and> num_ants no_ants \<le> 0 \<and>
   run no_ants (corridor_st high_draws 0) = Some (Inl IndexError)"
proof -
  have a: "iterations no_iterations \<le> 0" by (simp add: no_iterations_def)
  have b: "0 < iterations no_ants" "num_ants no_ants \<le> 0"
    by (simp_all add: no_ants_def corridor_def)
  from no_configuration_check[of no_iterations "corridor_st high_draws 0"] a
  have c: "run no_iterations (corridor_st high_draws 0) = Some (Inr (None, corridor_st high_draws 0))"
    by blast
  from no_configuration_check[of no_ants "corridor_st high_draws 0"] b
  have d: "run no_ants (corridor_st high_draws 0) = Some (Inl IndexError)"
    by blast
  from a b c d show ?thesis by blast
qed

section \<open>Claim C9: the start is not recorded\<close>

text \<open>
  Claim C9 fails where it says that the route never contains the start and that the edge
  leaving the start is never reinforced. On the corridor, with a draw that sends the agent
  back from \<open>(0,1)\<close>, the walk \<open>(0,0) \<rightarrow> (0,1) \<rightarrow> (0,0) \<rightarrow> (0,1) \<rightarrow> (0,2)\<close> records the start
  \<open>(0,0)\<close> at timestep \<open>1\<close>, and the pair \<open>((0,0), (0,1))\<close> is among the pairs that
  \<open>reinforce\<close> deposits on.
\<close>

theorem route_revisits_start_counterexample:
  "build_route_single corridor (0, 0) (0, 2) (0, 2) {} (corridor_st detour_draws 0)
     = Some (Inr (detour_route, set detour_route, corridor_st detour_draws 4)) \<and>
   (0, 0) \<in> set (nodes_of detour_route) \<and>
   count_list (traversed [detour_route]) ((0, 0), (0, 1)) = 1"
proof -
  have "set detour_route
          = {(Suc (Suc (Suc 0)), (0, 2)), (Suc (Suc 0), (0, 1)), (Suc 0, (0, 0)), (0, (0, 1))}"
    unfolding detour_route_alt by auto
  moreover have "(4 :: nat) = Suc (Suc (Suc (Suc 0)))" by simp
  ultimately have "build_route_single corridor (0, 0) (0, 2) (0, 2) {} (corridor_st detour_draws 0)
     = Some (Inr (detour_route, set detour_route, corridor_st detour_draws 4))"
    using detour_walk by (simp only: detour_route_alt)
  moreover have "(0, 0) \<in> set (nodes_of detour_route)"
    by (simp add: nodes_of_def detour_route_def)
  moreover have "count_list (traversed [detour_route]) ((0, 0), (0, 1)) = 1"
    by (simp add: traversed_def steps_def nodes_of_def detour_route_def)
  ultimately show ?thesis by blast
qed

text \<open>
  Claim C9, as the code has it. The start is not recorded as the route's origin: the first
  recorded pair is the first moved-to node, a neighbour of the start, with timestep \<open>0\<close>
  (the start node occurs in the route only if the walk comes back to it). So the total
  distance of \<open>score_solution\<close> is the cost of the walk from the start without its first
  move, and \<open>reinforce\<close> deposits on the pairs of the walk from the start without the pair of
  the first move.
\<close>

theorem first_move_not_recorded:
  assumes "build_route_single self start mid endn ocupacion st = Some (Inr (ruta, ocupacion', st'))"
    and "ruta \<noteq> []"
  shows "fst (hd ruta) = 0 \<and> snd (hd ruta) \<in> set (neighbours (G self) start) \<and>
         fst (snd (score_solution self [ruta]))
           = walk_cost self start ruta - dist_aco self start (snd (hd ruta)) \<and>
         steps (start # nodes_of ruta) = (start, snd (hd ruta)) # traversed [ruta] \<and>
         (\<forall>score ph ph' e. reinforce self [ruta] score ph = Inr ph' \<longrightarrow>
            ph' e = (if count_list (traversed [ruta]) e = 0 then ph e
                     else Some (trail ph e + real (count_list (traversed [ruta]) e)
                                             * (Q self / (score + eps)))))"
proof -
  from assms(2) obtain p ps where r: "ruta = p # ps" by (cases ruta) auto
  from route_walk[OF assms(1)] have ts: "map fst ruta = [0..<length ruta]"
    and ch: "chain (G self) start (nodes_of ruta)"
    by blast+
  have "[0..<length ruta] = 0 # [Suc 0..<length ruta]" by (simp add: r upt_conv_Cons del: upt_Suc)
  with ts have t0: "fst (hd ruta) = 0" by (simp add: r del: upt_Suc)
  have nb: "snd (hd ruta) \<in> set (neighbours (G self) start)"
    using ch by (simp add: r nodes_of_Cons)
  have sp: "steps (start # nodes_of ruta) = (start, snd (hd ruta)) # traversed [ruta]"
    using first_step_split[OF assms(2)] by (simp add: traversed_single)
  have sc: "fst (snd (score_solution self [ruta]))
           = walk_cost self start ruta - dist_aco self start (snd (hd ruta))"
    by (simp add: score_solution_closed total_dist_of_def walk_cost_def sp)
  have re: "\<forall>score ph ph' e. reinforce self [ruta] score ph = Inr ph' \<longrightarrow>
            ph' e = (if count_list (traversed [ruta]) e = 0 then ph e
                     else Some (trail ph e + real (count_list (traversed [ruta]) e)
                                             * (Q self / (score + eps))))"
    using reinforce_closed by blast
  from t0 nb sc sp re show ?thesis by blast
qed

theorem first_move_not_recorded_witness:
  "build_route_single corridor (0, 0) (0, 1) (0, 2) {} (corridor_st high_draws 0)
     = Some (Inr ([(0, (0, 1)), (Suc 0, (0, 2))], {(0, (0, 1)), (Suc 0, (0, 2))},
                  corridor_st high_draws (Suc (Suc 0)))) \<and>
   [(0, (0 :: int, 1 :: int)), (Suc 0, (0 :: int, 2 :: int))] \<noteq> [] \<and>
   fst (snd (score_solution corridor [ [(0, (0, 1)), (Suc 0, (0, 2))]])) = 1 \<and>
   walk_cost corridor (0, 0) [(0, (0, 1)), (Suc 0, (0, 2))] = 2 \<and>
   steps ((0, 0) # nodes_of [(0, (0, 1)), (Suc 0, (0, 2))])
     = ((0, 0), (0, 1)) # traversed [ [(0, (0, 1)), (Suc 0, (0, 2))]]"
proof -
  have r: "build_route_single corridor (0, 0) (0, 1) (0, 2) {} (corridor_st high_draws 0)
     = Some (Inr ([(0, (0, 1)), (Suc 0, (0, 2))], {(0, (0, 1)), (Suc 0, (0, 2))},
                  corridor_st high_draws (Suc (Suc 0))))"
    by (rule corridor_route) (simp add: high_draws_def)
  have ne: "[(0, (0 :: int, 1 :: int)), (Suc 0, (0 :: int, 2 :: int))] \<noteq> []" by simp
  have w: "walk_cost corridor (0, 0) [(0, (0, 1)), (Suc 0, (0, 2))] = 2"
    by (simp add: walk_cost_def steps_def nodes_of_def dist_aco_def corridor_def)
  have d: "dist_aco corridor (0, 0) (0, 1) = 1" by (simp add: dist_aco_def corridor_def)
  from first_move_not_recorded[OF r ne] have
    "fst (snd (score_solution corridor [ [(0, (0, 1)), (Suc 0, (0, 2))]]))
       = walk_cost corridor (0, 0) [(0, (0, 1)), (Suc 0, (0, 2))] - dist_aco corridor (0, 0) (0, 1)"
    "steps ((0, 0) # nodes_of [(0, (0, 1)), (Suc 0, (0, 2))])
       = ((0, 0), (0, 1)) # traversed [ [(0, (0, 1)), (Suc 0, (0, 2))]]"
    by simp_all
  with r ne w d show ?thesis by simp
qed

section \<open>Claim C10: \<open>w_dist\<close> and \<open>MIN_SEP\<close> are never read\<close>

text \<open>
  Claim C10. The fields \<open>w_dist\<close> and \<open>MIN_SEP\<close> are stored by \<open>__init__\<close> and never read:
  changing them changes neither the routes of a solution, nor its score, nor the result of
  \<open>run\<close> (incumbent routes, incumbent score, pheromone table and generator state), for the
  same starting state and the same random draws.
\<close>

theorem unused_parameters:
  "build_solution_multi (self\<lparr>w_dist := w, MIN_SEP := m\<rparr>) st = build_solution_multi self st \<and>
   score_solution (self\<lparr>w_dist := w, MIN_SEP := m\<rparr>) rutas = score_solution self rutas \<and>
   run (self\<lparr>w_dist := w, MIN_SEP := m\<rparr>) st = run self st \<and>
   init_state (self\<lparr>w_dist := w, MIN_SEP := m\<rparr>) rf ri = init_state self rf ri"
proof -
  have r: "same_run (self\<lparr>w_dist := w, MIN_SEP := m\<rparr>) self"
    by (simp add: same_run_def same_plan_def same_walk_def)
  then have p: "same_plan (self\<lparr>w_dist := w, MIN_SEP := m\<rparr>) self"
    by (simp add: same_run_def)
  show ?thesis
    using build_solution_multi_cong[OF p] score_solution_cong[OF p] run_cong[OF r]
    by (simp add: init_state_def)
qed

theorem unused_parameters_witness:
  "run (corridor\<lparr>w_dist := 5, MIN_SEP := 0\<rparr>) (corridor_st high_draws 0)
     = run corridor (corridor_st high_draws 0) \<and>
   score_solution (corridor\<lparr>w_dist := 5, MIN_SEP := 0\<rparr>) [ [(0, (0, 1)), (1, (0, 2))]]
     = score_solution corridor [ [(0, (0, 1)), (1, (0, 2))]]"
  using unused_parameters[where self = corridor and w = 5 and m = 0
      and st = "corridor_st high_draws 0" and rutas = "[ [(0, (0, 1)), (1, (0, 2))]]"]
  by blast

end
